theory Spec2Isabelle
  imports Complex_Main "HOL-Library.Extended_Nat"
begin

section \<open>Python values\<close>

text \<open>
  Exceptions of the Python source are values. \<open>Exception\<close> carries the message of a
  \<^verbatim>\<open>raise Exception('...')\<close>; the other constructors are the built-in
  exceptions the interpreter raises by itself (division of Python integers by zero,
  \<^verbatim>\<open>max([])\<close>, iterating over \<^verbatim>\<open>None\<close>, an index out of range).
\<close>

datatype error = ZeroDivisionError | ValueError | TypeError | IndexError | Exception string

text \<open>
  Floating point numbers are idealised: a finite float is a real number (rounding is not
  modelled), and the three special values \<^verbatim>\<open>np.inf\<close>, \<^verbatim>\<open>-np.inf\<close>
  and \<^verbatim>\<open>nan\<close> are kept, because the selection algorithm tests for them.
  Signed zeros are not distinguished.
\<close>

datatype npfloat = Fin real | PInf | NInf | NaN

fun np_isinf :: "npfloat \<Rightarrow> bool" where
  "np_isinf PInf = True"
| "np_isinf NInf = True"
| "np_isinf _ = False"

fun np_gt :: "npfloat \<Rightarrow> npfloat \<Rightarrow> bool" where
  "np_gt NaN _ = False"
| "np_gt _ NaN = False"
| "np_gt (Fin x) (Fin y) = (x > y)"
| "np_gt PInf PInf = False"
| "np_gt PInf _ = True"
| "np_gt _ PInf = False"
| "np_gt NInf _ = False"
| "np_gt _ NInf = True"

definition np_lt :: "npfloat \<Rightarrow> npfloat \<Rightarrow> bool" where
  "np_lt a b = np_gt b a"

definition inf_signed :: "real \<Rightarrow> npfloat" where
  "inf_signed x = (if x > 0 then PInf else if x < 0 then NInf else NaN)"

fun np_neg :: "npfloat \<Rightarrow> npfloat" where
  "np_neg (Fin x) = Fin (- x)"
| "np_neg PInf = NInf"
| "np_neg NInf = PInf"
| "np_neg NaN = NaN"

fun np_add :: "npfloat \<Rightarrow> npfloat \<Rightarrow> npfloat" where
  "np_add NaN _ = NaN"
| "np_add _ NaN = NaN"
| "np_add (Fin x) (Fin y) = Fin (x + y)"
| "np_add PInf NInf = NaN"
| "np_add NInf PInf = NaN"
| "np_add PInf _ = PInf"
| "np_add _ PInf = PInf"
| "np_add NInf _ = NInf"
| "np_add _ NInf = NInf"

definition np_sub :: "npfloat \<Rightarrow> npfloat \<Rightarrow> npfloat" where
  "np_sub a b = np_add a (np_neg b)"

fun np_mul :: "npfloat \<Rightarrow> npfloat \<Rightarrow> npfloat" where
  "np_mul NaN _ = NaN"
| "np_mul _ NaN = NaN"
| "np_mul (Fin x) (Fin y) = Fin (x * y)"
| "np_mul (Fin x) PInf = inf_signed x"
| "np_mul (Fin x) NInf = inf_signed (- x)"
| "np_mul PInf (Fin y) = inf_signed y"
| "np_mul NInf (Fin y) = inf_signed (- y)"
| "np_mul PInf PInf = PInf"
| "np_mul NInf NInf = PInf"
| "np_mul PInf NInf = NInf"
| "np_mul NInf PInf = NInf"

fun np_div :: "npfloat \<Rightarrow> npfloat \<Rightarrow> npfloat" where
  "np_div NaN _ = NaN"
| "np_div _ NaN = NaN"
| "np_div (Fin x) (Fin y) = (if y = 0 then inf_signed x else Fin (x / y))"
| "np_div (Fin x) _ = Fin 0"
| "np_div PInf (Fin y) = (if y \<ge> 0 then PInf else NInf)"
| "np_div NInf (Fin y) = (if y \<ge> 0 then NInf else PInf)"
| "np_div _ _ = NaN"

fun np_sqrt :: "npfloat \<Rightarrow> npfloat" where
  "np_sqrt (Fin x) = (if x < 0 then NaN else Fin (sqrt x))"
| "np_sqrt PInf = PInf"
| "np_sqrt _ = NaN"

fun np_log :: "npfloat \<Rightarrow> npfloat" where
  "np_log (Fin x) = (if x > 0 then Fin (ln x) else if x = 0 then NInf else NaN)"
| "np_log PInf = PInf"
| "np_log _ = NaN"

text \<open>
  A visit counter is a Python integer, or \<^verbatim>\<open>np.inf\<close> once the node is solved.
  Counters start at 0 and are only ever increased (by the rollout batch size, a number of
  worker threads, or by 1), so they are extended natural numbers.
\<close>

fun np_of_count :: "enat \<Rightarrow> npfloat" where
  "np_of_count (enat n) = Fin (real n)"
| "np_of_count \<infinity> = PInf"

text \<open>\<^verbatim>\<open>max(xs)\<close> and \<^verbatim>\<open>min(xs)\<close> of a list: ValueError when it is empty.\<close>

fun py_max :: "real list \<Rightarrow> error + real" where
  "py_max [] = Inl ValueError"
| "py_max (x # xs) = Inr (fold max xs x)"

fun py_min :: "real list \<Rightarrow> error + real" where
  "py_min [] = Inl ValueError"
| "py_min (x # xs) = Inr (fold min xs x)"

text \<open>\<^verbatim>\<open>xs[i]\<close> for an index that is not negative.\<close>

definition py_index :: "'a list \<Rightarrow> nat \<Rightarrow> error + 'a" where
  "py_index xs i = (if i < length xs then Inr (xs ! i) else Inl IndexError)"

text \<open>Evaluating a list of computations that may raise, left to right.\<close>

fun sequence :: "(error + 'a) list \<Rightarrow> error + 'a list" where
  "sequence [] = Inr []"
| "sequence (Inl e # _) = Inl e"
| "sequence (Inr x # rs) = (case sequence rs of Inl e \<Rightarrow> Inl e | Inr xs \<Rightarrow> Inr (x # xs))"

section \<open>The game contract, the evaluator and the search parameters\<close>

record 'p game_class =
  is_over :: "'p \<Rightarrow> bool"
  is_player_1_turn :: "'p \<Rightarrow> bool"
  get_possible_moves :: "'p \<Rightarrow> 'p list"
  get_winner :: "'p \<Rightarrow> real"

text \<open>
  The constructor arguments every node of one search shares (each node passes them on to
  the children it creates): the game, the exploration constants \<^verbatim>\<open>c\<close> and
  \<^verbatim>\<open>d\<close>, the rollout batch size and the network. \<open>network_call\<close> is the
  network's answer \<^verbatim>\<open>(policy, value)\<close> for one position.
\<close>

record 'p config =
  GameClass :: "'p game_class"
  param_c :: real
  param_d :: real
  rollout_batch_size :: nat
  network_call :: "'p \<Rightarrow> real list \<times> real"

section \<open>Nodes and the heap\<close>

text \<open>
  Nodes are Python objects that refer to each other (\<^verbatim>\<open>parent\<close>,
  \<^verbatim>\<open>children\<close>) and are updated in place. A heap maps an address to the node
  stored there; \<open>next_id\<close> is the first address not yet handed out, so that a new node
  is a new object. \<^verbatim>\<open>AbstractNode\<close> is the record \<open>node\<close>; the two
  subclasses extend it by their statistics.
\<close>

record 'p node =
  position :: 'p
  parent :: "nat option"
  fully_expanded :: bool
  is_maximizing :: bool
  children :: "nat list option"

record 'p RolloutNode = "'p node" +
  rollout_sum :: real
  rollout_count :: enat

record 'p HeuristicNode = "'p node" +
  heuristic :: real
  policy :: "real list option"
  expansions :: enat

record 'n heap =
  nodes :: "nat \<Rightarrow> 'n"
  next_id :: nat

definition modify :: "nat \<Rightarrow> ('n \<Rightarrow> 'n) \<Rightarrow> 'n heap \<Rightarrow> 'n heap" where
  "modify i f h = h\<lparr>nodes := (nodes h)(i := f (nodes h i))\<rparr>"

text \<open>
  \<open>allocate\<close> is the list comprehension of \<^verbatim>\<open>ensure_children\<close>: one new
  node per move, in the order of the moves, at the addresses \<open>next_id h, next_id h + 1, ...\<close>;
  the list of these addresses becomes \<^verbatim>\<open>self.children\<close>.
\<close>

definition allocate :: "nat \<Rightarrow> ('p \<Rightarrow> ('p, 'm) node_scheme) \<Rightarrow> 'p list \<Rightarrow>
    ('p, 'm) node_scheme heap \<Rightarrow> ('p, 'm) node_scheme heap" where
  "allocate self new moves h =
     \<lparr>nodes = (\<lambda>i. if i = self then (nodes h self)\<lparr>children := Some [next_id h ..< next_id h + length moves]\<rparr>
                   else if next_id h \<le> i \<and> i < next_id h + length moves then new (moves ! (i - next_id h))
                   else nodes h i),
      next_id = next_id h + length moves\<rparr>"

text \<open>The abstract methods of \<^verbatim>\<open>AbstractNode\<close>, as a record of functions.\<close>

record ('p, 'm) methods =
  get_evaluation :: "('p, 'm) node_scheme \<Rightarrow> error + real"
  count_expansions :: "('p, 'm) node_scheme \<Rightarrow> enat"
  ensure_children :: "('p, 'm) node_scheme heap \<Rightarrow> nat \<Rightarrow> error + ('p, 'm) node_scheme heap"
  get_puct_heuristic_for_child :: "('p, 'm) node_scheme heap \<Rightarrow> nat \<Rightarrow> nat \<Rightarrow> error + npfloat"
  set_fully_expanded :: "real \<Rightarrow> ('p, 'm) node_scheme \<Rightarrow> ('p, 'm) node_scheme"

definition optimal_value :: "('p, 'm) node_scheme \<Rightarrow> real" where
  "optimal_value n = (if is_maximizing n then 1 else - 1)"

section \<open>AbstractNode.choose_expansion_node\<close>

text \<open>
  The \<^verbatim>\<open>for i, child in enumerate(self.children)\<close> loop reads the heap and
  leaves it in one of three ways: through the \<^verbatim>\<open>return\<close> after
  \<^verbatim>\<open>set_fully_expanded(optimal_value)\<close> (a solved child already has the
  mover's optimal value), through \<^verbatim>\<open>return child\<close> (infinite exploration
  score), or by running to its end with the current \<^verbatim>\<open>best_child\<close>.
  \<open>scan_children\<close> is the loop; the two updates of the heap that follow an exit are
  made by \<open>choose_expansion_node\<close> below.
\<close>

datatype scan_result = Optimal_child | Infinite_puct nat | Loop_end "nat option"

fun scan_children :: "('p, 'm) methods \<Rightarrow> ('p, 'm) node_scheme heap \<Rightarrow> nat \<Rightarrow> nat \<Rightarrow> nat list \<Rightarrow>
    npfloat \<Rightarrow> nat option \<Rightarrow> error + scan_result" where
  "scan_children M h self i [] best_heuristic best_child = Inr (Loop_end best_child)"
| "scan_children M h self i (child # rest) best_heuristic best_child =
     (if fully_expanded (nodes h child) then
        (case get_evaluation M (nodes h child) of
           Inl e \<Rightarrow> Inl e
         | Inr ev \<Rightarrow>
             if ev = optimal_value (nodes h self) then Inr Optimal_child
             else scan_children M h self (Suc i) rest best_heuristic best_child)
      else
        (case get_puct_heuristic_for_child M h self i of
           Inl e \<Rightarrow> Inl e
         | Inr puct_heuristic \<Rightarrow>
             if np_isinf puct_heuristic then Inr (Infinite_puct child)
             else
               (case get_evaluation M (nodes h child) of
                  Inl e \<Rightarrow> Inl e
                | Inr ev \<Rightarrow>
                    if is_maximizing (nodes h self) then
                      (let combined_heuristic = np_add (Fin ev) puct_heuristic in
                       if np_gt combined_heuristic best_heuristic
                       then scan_children M h self (Suc i) rest combined_heuristic (Some child)
                       else scan_children M h self (Suc i) rest best_heuristic best_child)
                    else
                      (let combined_heuristic = np_sub (Fin ev) puct_heuristic in
                       if np_lt combined_heuristic best_heuristic
                       then scan_children M h self (Suc i) rest combined_heuristic (Some child)
                       else scan_children M h self (Suc i) rest best_heuristic best_child))))"

text \<open>
  \<^verbatim>\<open>max([child.get_evaluation() for child in self.children])\<close>, or
  \<^verbatim>\<open>min\<close> for the minimizing player.
\<close>

definition minimax_of_children :: "('p, 'm) methods \<Rightarrow> ('p, 'm) node_scheme heap \<Rightarrow> bool \<Rightarrow> nat list
    \<Rightarrow> error + real" where
  "minimax_of_children M h maximizing cs =
     (case sequence (map (\<lambda>child. get_evaluation M (nodes h child)) cs) of
        Inl e \<Rightarrow> Inl e
      | Inr evs \<Rightarrow> if maximizing then py_max evs else py_min evs)"

text \<open>
  The method calls itself on the chosen child and, after a node is solved, on the parent.
  The first argument bounds the number of these calls: \<open>None\<close> means that the bound was
  reached before the method returned. A result \<open>Some (Inr (h, r))\<close> is the heap after
  the call and the returned node (\<^verbatim>\<open>None\<close> or a node).
\<close>

fun choose_expansion_node :: "nat \<Rightarrow> ('p, 'm) methods \<Rightarrow> ('p, 'm) node_scheme heap \<Rightarrow> nat \<Rightarrow>
    (error + ('p, 'm) node_scheme heap \<times> nat option) option" where
  "choose_expansion_node 0 M h self = None"
| "choose_expansion_node (Suc fuel) M h self =
     (if fully_expanded (nodes h self) then Some (Inr (h, None))
      else if count_expansions M (nodes h self) = 0 then Some (Inr (h, Some self))
      else
        (case ensure_children M h self of
           Inl e \<Rightarrow> Some (Inl e)
         | Inr h1 \<Rightarrow>
            (case children (nodes h1 self) of
               None \<Rightarrow> Some (Inl TypeError)
             | Some cs \<Rightarrow>
                (case scan_children M h1 self 0 cs
                        (if is_maximizing (nodes h1 self) then NInf else PInf) None of
                   Inl e \<Rightarrow> Some (Inl e)
                 | Inr Optimal_child \<Rightarrow>
                     (let h2 = modify self (set_fully_expanded M (optimal_value (nodes h1 self))) h1 in
                      case parent (nodes h2 self) of
                        Some p \<Rightarrow> choose_expansion_node fuel M h2 p
                      | None \<Rightarrow> Some (Inr (h2, None)))
                 | Inr (Infinite_puct child) \<Rightarrow> Some (Inr (h1, Some child))
                 | Inr (Loop_end None) \<Rightarrow>
                     (case minimax_of_children M h1 (is_maximizing (nodes h1 self)) cs of
                        Inl e \<Rightarrow> Some (Inl e)
                      | Inr minimax_evaluation \<Rightarrow>
                          (let h2 = modify self (set_fully_expanded M minimax_evaluation) h1 in
                           case parent (nodes h2 self) of
                             Some p \<Rightarrow> choose_expansion_node fuel M h2 p
                           | None \<Rightarrow> Some (Inr (h2, None))))
                 | Inr (Loop_end (Some best_child)) \<Rightarrow> choose_expansion_node fuel M h1 best_child))))"

section \<open>RolloutNode\<close>

definition RolloutNode_init :: "'p config \<Rightarrow> 'p \<Rightarrow> nat option \<Rightarrow> 'p RolloutNode" where
  "RolloutNode_init cfg pos par =
     \<lparr>position = pos, parent = par,
      fully_expanded = is_over (GameClass cfg) pos,
      is_maximizing = is_player_1_turn (GameClass cfg) pos,
      children = None,
      rollout_sum = (if is_over (GameClass cfg) pos then get_winner (GameClass cfg) pos else 0),
      rollout_count = (if is_over (GameClass cfg) pos then \<infinity> else 0)\<rparr>"

text \<open>
  \<^verbatim>\<open>rollout_sum / rollout_count\<close> divides two Python integers when the count is
  finite: ZeroDivisionError for the count 0. A finite sum divided by \<^verbatim>\<open>np.inf\<close>
  is 0.
\<close>

definition RolloutNode_get_evaluation :: "'p RolloutNode \<Rightarrow> error + real" where
  "RolloutNode_get_evaluation n =
     (if \<not> fully_expanded n then
        (case rollout_count n of
           enat k \<Rightarrow> if k = 0 then Inl ZeroDivisionError else Inr (rollout_sum n / real k)
         | \<infinity> \<Rightarrow> Inr 0)
      else Inr (rollout_sum n))"

definition RolloutNode_ensure_children :: "'p config \<Rightarrow> 'p RolloutNode heap \<Rightarrow> nat \<Rightarrow>
    error + 'p RolloutNode heap" where
  "RolloutNode_ensure_children cfg h self =
     (case children (nodes h self) of
        None \<Rightarrow> Inr (allocate self (\<lambda>move. RolloutNode_init cfg move (Some self))
                       (get_possible_moves (GameClass cfg) (position (nodes h self))) h)
      | Some _ \<Rightarrow> Inr h)"

definition RolloutNode_set_fully_expanded :: "real \<Rightarrow> 'p RolloutNode \<Rightarrow> 'p RolloutNode" where
  "RolloutNode_set_fully_expanded minimax_evaluation n =
     n\<lparr>rollout_sum := minimax_evaluation, rollout_count := \<infinity>, fully_expanded := True\<rparr>"

definition RolloutNode_get_puct_heuristic_for_child :: "'p config \<Rightarrow> 'p RolloutNode heap \<Rightarrow> nat \<Rightarrow> nat
    \<Rightarrow> error + npfloat" where
  "RolloutNode_get_puct_heuristic_for_child cfg h self i =
     (case children (nodes h self) of
        None \<Rightarrow> Inl TypeError
      | Some cs \<Rightarrow>
         (case py_index cs i of
            Inl e \<Rightarrow> Inl e
          | Inr child \<Rightarrow>
              Inr (if rollout_count (nodes h child) > 0
                   then np_mul (Fin (param_c cfg))
                          (np_sqrt (np_div (np_log (np_of_count (rollout_count (nodes h self))))
                                           (np_of_count (rollout_count (nodes h child)))))
                   else PInf)))"

definition RolloutNode_methods :: "'p config \<Rightarrow> ('p, unit RolloutNode_ext) methods" where
  "RolloutNode_methods cfg =
     \<lparr>get_evaluation = RolloutNode_get_evaluation,
      count_expansions = rollout_count,
      ensure_children = RolloutNode_ensure_children cfg,
      get_puct_heuristic_for_child = RolloutNode_get_puct_heuristic_for_child cfg,
      set_fully_expanded = RolloutNode_set_fully_expanded\<rparr>"

text \<open>
  \<^verbatim>\<open>expand\<close>: the random playouts are not part of the model; \<open>outcome i\<close> is
  the result of the \<open>i\<close>-th playout of the batch. The loop
  \<^verbatim>\<open>while node is not None\<close> follows the parent references; its first
  argument bounds the number of iterations.
\<close>

fun RolloutNode_backup :: "nat \<Rightarrow> real \<Rightarrow> nat \<Rightarrow> 'p RolloutNode heap \<Rightarrow> nat option \<Rightarrow>
    'p RolloutNode heap option" where
  "RolloutNode_backup fuel rs batch h None = Some h"
| "RolloutNode_backup 0 rs batch h (Some node) = None"
| "RolloutNode_backup (Suc fuel) rs batch h (Some node) =
     RolloutNode_backup fuel rs batch
       (modify node (\<lambda>n. n\<lparr>rollout_sum := rollout_sum n + rs,
                              rollout_count := rollout_count n + enat batch\<rparr>) h)
       (parent (nodes h node))"

definition RolloutNode_expand :: "nat \<Rightarrow> 'p config \<Rightarrow> (nat \<Rightarrow> real) \<Rightarrow> 'p RolloutNode heap \<Rightarrow> nat \<Rightarrow>
    (error + 'p RolloutNode heap) option" where
  "RolloutNode_expand fuel cfg outcome h self =
     map_option Inr
       (RolloutNode_backup fuel (sum_list (map outcome [0 ..< rollout_batch_size cfg]))
          (rollout_batch_size cfg) h (Some self))"

section \<open>AbstractNode.merge_children_clones\<close>

text \<open>
  The clones are nodes of the same heap. \<open>adopt\<close> is the first loop: the children of
  the first clone that has any, and the clones after it. The adopted list is the clone's
  own list of children: the same objects, not copies.
\<close>

fun adopt :: "('p, 'm) node_scheme heap \<Rightarrow> nat list \<Rightarrow> (nat list \<times> nat list) option" where
  "adopt h [] = None"
| "adopt h (clone # rest) =
     (case children (nodes h clone) of Some cs \<Rightarrow> Some (cs, rest) | None \<Rightarrow> adopt h rest)"

text \<open>
  \<^verbatim>\<open>[clone.children[i] for clone in clones if clone.children is not None]\<close>
\<close>

definition clone_children_at :: "('p, 'm) node_scheme heap \<Rightarrow> nat \<Rightarrow> nat list \<Rightarrow> error + nat list" where
  "clone_children_at h i clones =
     sequence (List.map_filter
       (\<lambda>clone. case children (nodes h clone) of None \<Rightarrow> None | Some cs \<Rightarrow> Some (py_index cs i))
       clones)"

fun merge_each :: "(('p, 'm) node_scheme heap \<Rightarrow> nat \<Rightarrow> nat list \<Rightarrow> (error + ('p, 'm) node_scheme heap) option)
    \<Rightarrow> ('p, 'm) node_scheme heap \<Rightarrow> nat \<Rightarrow> nat list \<Rightarrow> nat list \<Rightarrow>
    (error + ('p, 'm) node_scheme heap) option" where
  "merge_each merge h i [] clones = Some (Inr h)"
| "merge_each merge h i (child # rest) clones =
     (case clone_children_at h i clones of
        Inl e \<Rightarrow> Some (Inl e)
      | Inr cl \<Rightarrow>
         (case merge h child cl of
            None \<Rightarrow> None
          | Some (Inl e) \<Rightarrow> Some (Inl e)
          | Some (Inr h') \<Rightarrow> merge_each merge h' (Suc i) rest clones))"

definition merge_children_clones ::
    "(('p, 'm) node_scheme heap \<Rightarrow> nat \<Rightarrow> nat list \<Rightarrow> (error + ('p, 'm) node_scheme heap) option)
    \<Rightarrow> ('p, 'm) node_scheme heap \<Rightarrow> nat \<Rightarrow> nat list \<Rightarrow> (error + ('p, 'm) node_scheme heap) option" where
  "merge_children_clones merge h self clones =
     (case children (nodes h self) of
        None \<Rightarrow>
          (case adopt h clones of
             None \<Rightarrow> Some (Inr h)
           | Some (cs, clones') \<Rightarrow>
               merge_each merge (modify self (\<lambda>n. n\<lparr>children := Some cs\<rparr>) h) 0 cs clones')
      | Some cs \<Rightarrow> merge_each merge h 0 cs clones)"

section \<open>RolloutNode.merge\<close>

text \<open>
  The two augmented assignments run one after the other: the second list comprehension
  reads \<^verbatim>\<open>self.rollout_count\<close> after the first assignment has changed it.
  The first argument bounds the depth of the recursion through the children.
\<close>

definition RolloutNode_merge_count :: "'p RolloutNode heap \<Rightarrow> nat \<Rightarrow> nat list \<Rightarrow> 'p RolloutNode heap" where
  "RolloutNode_merge_count h self clones =
     modify self (\<lambda>n. n\<lparr>rollout_count := rollout_count n +
        sum_list (map (\<lambda>clone. rollout_count (nodes h clone) - rollout_count (nodes h self))
                      (filter (\<lambda>clone. rollout_count (nodes h clone) > rollout_count (nodes h self)) clones))\<rparr>) h"

definition RolloutNode_merge_sum :: "'p RolloutNode heap \<Rightarrow> nat \<Rightarrow> nat list \<Rightarrow> 'p RolloutNode heap" where
  "RolloutNode_merge_sum h self clones =
     modify self (\<lambda>n. n\<lparr>rollout_sum := rollout_sum n +
        sum_list (map (\<lambda>clone. rollout_sum (nodes h clone) - rollout_sum (nodes h self))
                      (filter (\<lambda>clone. rollout_count (nodes h clone) > rollout_count (nodes h self)) clones))\<rparr>) h"

primrec RolloutNode_merge :: "nat \<Rightarrow> 'p RolloutNode heap \<Rightarrow> nat \<Rightarrow> nat list \<Rightarrow>
    (error + 'p RolloutNode heap) option" where
  "RolloutNode_merge 0 h self clones = None"
| "RolloutNode_merge (Suc fuel) h self clones =
     merge_children_clones (RolloutNode_merge fuel)
       (RolloutNode_merge_sum (RolloutNode_merge_count h self clones) self clones) self clones"

section \<open>HeuristicNode\<close>

text \<open>
  The constructor: \<open>network_call_results\<close> is the optional argument of the same name.
\<close>

definition HeuristicNode_init :: "'p config \<Rightarrow> 'p \<Rightarrow> nat option \<Rightarrow> (real list \<times> real) option \<Rightarrow>
    'p HeuristicNode" where
  "HeuristicNode_init cfg pos par network_call_results =
     (if is_over (GameClass cfg) pos then
        \<lparr>position = pos, parent = par, fully_expanded = True,
         is_maximizing = is_player_1_turn (GameClass cfg) pos, children = None,
         heuristic = get_winner (GameClass cfg) pos, policy = None, expansions = \<infinity>\<rparr>
      else
        (let (pol, value) = (case network_call_results of
                               None \<Rightarrow> network_call cfg pos
                             | Some r \<Rightarrow> r)
         in \<lparr>position = pos, parent = par, fully_expanded = False,
              is_maximizing = is_player_1_turn (GameClass cfg) pos, children = None,
              heuristic = value, policy = Some pol, expansions = 0\<rparr>))"

definition HeuristicNode_get_evaluation :: "'p HeuristicNode \<Rightarrow> error + real" where
  "HeuristicNode_get_evaluation n = Inr (heuristic n)"

text \<open>
  \<^verbatim>\<open>ensure_children\<close> with its default arguments. The network is called on
  \<^verbatim>\<open>np.stack(moves, axis=0)\<close>, which raises ValueError for an empty list of
  moves; otherwise each child is built from its move and the network's answer for it.
\<close>

definition HeuristicNode_ensure_children :: "'p config \<Rightarrow> 'p HeuristicNode heap \<Rightarrow> nat \<Rightarrow>
    error + 'p HeuristicNode heap" where
  "HeuristicNode_ensure_children cfg h self =
     (case children (nodes h self) of
        None \<Rightarrow>
          (let moves = get_possible_moves (GameClass cfg) (position (nodes h self)) in
           if moves = [] then Inl ValueError
           else Inr (modify self (\<lambda>n. n\<lparr>expansions := 1\<rparr>)
                  (allocate self
                     (\<lambda>move. HeuristicNode_init cfg move (Some self) (Some (network_call cfg move)))
                     moves h)))
      | Some _ \<Rightarrow> Inr h)"

definition HeuristicNode_set_fully_expanded :: "real \<Rightarrow> 'p HeuristicNode \<Rightarrow> 'p HeuristicNode" where
  "HeuristicNode_set_fully_expanded minimax_evaluation n =
     n\<lparr>heuristic := minimax_evaluation, expansions := \<infinity>, fully_expanded := True\<rparr>"

definition HeuristicNode_get_puct_heuristic_for_child :: "'p config \<Rightarrow> 'p HeuristicNode heap \<Rightarrow> nat \<Rightarrow>
    nat \<Rightarrow> error + npfloat" where
  "HeuristicNode_get_puct_heuristic_for_child cfg h self i =
     (case children (nodes h self) of
        None \<Rightarrow> Inl TypeError
      | Some cs \<Rightarrow>
         (case py_index cs i of
            Inl e \<Rightarrow> Inl e
          | Inr child \<Rightarrow>
             (let exploration_term =
                    np_mul (Fin (param_c cfg))
                      (np_sqrt (np_div (np_log (np_of_count (expansions (nodes h self))))
                                       (np_of_count (expansions (nodes h child) + 1))))
              in case policy (nodes h self) of
                   None \<Rightarrow> Inl TypeError
                 | Some pol \<Rightarrow>
                    (case py_index pol i of
                       Inl e \<Rightarrow> Inl e
                     | Inr prior \<Rightarrow> Inr (np_add exploration_term (Fin (param_d cfg * prior)))))))"

definition HeuristicNode_methods :: "'p config \<Rightarrow> ('p, unit HeuristicNode_ext) methods" where
  "HeuristicNode_methods cfg =
     \<lparr>get_evaluation = HeuristicNode_get_evaluation,
      count_expansions = expansions,
      ensure_children = HeuristicNode_ensure_children cfg,
      get_puct_heuristic_for_child = HeuristicNode_get_puct_heuristic_for_child cfg,
      set_fully_expanded = HeuristicNode_set_fully_expanded\<rparr>"

text \<open>
  \<^verbatim>\<open>expand\<close> with its default arguments. \<open>backup_heuristic\<close> is the first
  loop over the ancestors: it returns the heap and the node at which the loop was left.
  \<open>backup_expansions\<close> is the second loop. The first argument of both bounds the
  number of iterations.
\<close>

definition beats :: "real \<Rightarrow> 'p HeuristicNode \<Rightarrow> bool" where
  "beats critical_value n =
     ((is_maximizing n \<and> critical_value > heuristic n) \<or>
      (\<not> is_maximizing n \<and> critical_value < heuristic n))"

fun backup_heuristic :: "nat \<Rightarrow> real \<Rightarrow> 'p HeuristicNode heap \<Rightarrow> nat option \<Rightarrow>
    ('p HeuristicNode heap \<times> nat option) option" where
  "backup_heuristic fuel critical_value h None = Some (h, None)"
| "backup_heuristic 0 critical_value h (Some node) = None"
| "backup_heuristic (Suc fuel) critical_value h (Some node) =
     (if beats critical_value (nodes h node) then
        backup_heuristic fuel critical_value
          (modify node (\<lambda>n. n\<lparr>heuristic := critical_value, expansions := expansions n + 1\<rparr>) h)
          (parent (nodes h node))
      else
        Some (modify node (\<lambda>n. n\<lparr>expansions := expansions n + 1\<rparr>) h, parent (nodes h node)))"

fun backup_expansions :: "nat \<Rightarrow> 'p HeuristicNode heap \<Rightarrow> nat option \<Rightarrow> 'p HeuristicNode heap option" where
  "backup_expansions fuel h None = Some h"
| "backup_expansions 0 h (Some node) = None"
| "backup_expansions (Suc fuel) h (Some node) =
     backup_expansions fuel (modify node (\<lambda>n. n\<lparr>expansions := expansions n + 1\<rparr>) h)
       (parent (nodes h node))"

definition critical_value_of :: "'p HeuristicNode heap \<Rightarrow> bool \<Rightarrow> nat list \<Rightarrow> error + real" where
  "critical_value_of h maximizing cs =
     (if maximizing then py_max (map (\<lambda>child. heuristic (nodes h child)) cs)
      else py_min (map (\<lambda>child. heuristic (nodes h child)) cs))"

definition HeuristicNode_expand :: "nat \<Rightarrow> 'p config \<Rightarrow> 'p HeuristicNode heap \<Rightarrow> nat \<Rightarrow>
    (error + 'p HeuristicNode heap) option" where
  "HeuristicNode_expand fuel cfg h self =
     (if children (nodes h self) \<noteq> None then Some (Inl (Exception ''Node already has children!''))
      else if fully_expanded (nodes h self) then Some (Inl (Exception ''Node is terminal!''))
      else
        (case HeuristicNode_ensure_children cfg h self of
           Inl e \<Rightarrow> Some (Inl e)
         | Inr h1 \<Rightarrow>
            (case children (nodes h1 self) of
               None \<Rightarrow> Some (Inl (Exception ''Failed to create children!''))
             | Some cs \<Rightarrow>
                (case critical_value_of h1 (is_maximizing (nodes h1 self)) cs of
                   Inl e \<Rightarrow> Some (Inl e)
                 | Inr critical_value \<Rightarrow>
                    (let h2 = modify self (\<lambda>n. n\<lparr>heuristic := critical_value\<rparr>) h1 in
                     case backup_heuristic fuel critical_value h2 (parent (nodes h2 self)) of
                       None \<Rightarrow> None
                     | Some (h3, node) \<Rightarrow> map_option Inr (backup_expansions fuel h3 node))))))"

section \<open>HeuristicNode.merge\<close>

primrec HeuristicNode_merge :: "nat \<Rightarrow> 'p HeuristicNode heap \<Rightarrow> nat \<Rightarrow> nat list \<Rightarrow>
    (error + 'p HeuristicNode heap) option" where
  "HeuristicNode_merge 0 h self clones = None"
| "HeuristicNode_merge (Suc fuel) h self clones =
     (case merge_children_clones (HeuristicNode_merge fuel) h self clones of
        None \<Rightarrow> None
      | Some (Inl e) \<Rightarrow> Some (Inl e)
      | Some (Inr h1) \<Rightarrow>
         (case children (nodes h1 self) of
            None \<Rightarrow> Some (Inl TypeError)
          | Some cs \<Rightarrow>
             (case critical_value_of h1 (is_maximizing (nodes h1 self)) cs of
                Inl e \<Rightarrow> Some (Inl e)
              | Inr v \<Rightarrow>
                 (let h2 = modify self (\<lambda>n. n\<lparr>heuristic := v\<rparr>) h1 in
                  case children (nodes h2 self) of
                    None \<Rightarrow> Some (Inl TypeError)
                  | Some cs2 \<Rightarrow>
                      Some (Inr (modify self
                        (\<lambda>n. n\<lparr>expansions := 1 + sum_list (map (\<lambda>child. expansions (nodes h2 child)) cs2)\<rparr>)
                        h2))))))"

section \<open>AbstractNode.choose_best_node: the weights of a node that is not solved\<close>

text \<open>
  The \<^verbatim>\<open>else\<close> branch of \<^verbatim>\<open>choose_best_node\<close> (the node is not
  fully expanded): the entry of \<^verbatim>\<open>distribution\<close> for one child, and the
  list before it is divided by its sum.
\<close>

definition child_weight :: "('p, 'm) methods \<Rightarrow> ('p, 'm) node_scheme heap \<Rightarrow> nat \<Rightarrow> nat \<Rightarrow> error + npfloat" where
  "child_weight M h self child =
     (if \<not> fully_expanded (nodes h child) then Inr (np_of_count (count_expansions M (nodes h child)))
      else
        (case get_evaluation M (nodes h child) of
           Inl e \<Rightarrow> Inl e
         | Inr ev \<Rightarrow>
            if ev = - optimal_value (nodes h self) then Inr (Fin 0)
            else
              (case get_evaluation M (nodes h self) of
                 Inl e \<Rightarrow> Inl e
               | Inr self_ev \<Rightarrow>
                  (let winning_chance = (self_ev * optimal_value (nodes h self)) / 2 + 0.5 in
                   Inr (np_mul (np_of_count (count_expansions M (nodes h self)))
                               (Fin (1 - winning_chance)))))))"

definition unsolved_distribution :: "('p, 'm) methods \<Rightarrow> ('p, 'm) node_scheme heap \<Rightarrow> nat \<Rightarrow>
    error + npfloat list" where
  "unsolved_distribution M h self =
     (case children (nodes h self) of
        None \<Rightarrow> Inl TypeError
      | Some cs \<Rightarrow> sequence (map (child_weight M h self) cs))"

section \<open>MiniMax\<close>

text \<open>
  \<^verbatim>\<open>evaluate_position_recursive\<close>. Values of positions are floats: a winner, a
  heuristic value, or the initial \<^verbatim>\<open>-np.inf\<close> or \<^verbatim>\<open>np.inf\<close> of
  \<^verbatim>\<open>best_heuristic\<close>. \<open>prune_loop\<close> is the loop over the child positions;
  \<open>ev child best_heuristic\<close> is the recursive call for one child.
\<close>

fun prune_loop :: "('p \<Rightarrow> npfloat \<Rightarrow> npfloat) \<Rightarrow> bool \<Rightarrow> npfloat \<Rightarrow> npfloat \<Rightarrow> 'p list \<Rightarrow> npfloat" where
  "prune_loop ev maximizing value_to_beat best_heuristic [] = best_heuristic"
| "prune_loop ev maximizing value_to_beat best_heuristic (child_position # rest) =
     (let heuristic = ev child_position best_heuristic in
      if maximizing \<and> np_gt heuristic best_heuristic then
        (if np_gt heuristic value_to_beat then heuristic
         else prune_loop ev maximizing value_to_beat heuristic rest)
      else if \<not> maximizing \<and> np_lt heuristic best_heuristic then
        (if np_lt heuristic value_to_beat then heuristic
         else prune_loop ev maximizing value_to_beat heuristic rest)
      else prune_loop ev maximizing value_to_beat best_heuristic rest)"

text \<open>
  The depth is a natural number: the recursion is on \<^verbatim>\<open>depth - 1\<close> and stops
  at \<^verbatim>\<open>depth == 0\<close>.
\<close>

primrec evaluate_position_recursive :: "nat \<Rightarrow> 'p game_class \<Rightarrow> ('p \<Rightarrow> real) \<Rightarrow> 'p \<Rightarrow> bool \<Rightarrow>
    npfloat \<Rightarrow> npfloat" where
  "evaluate_position_recursive 0 G heuristic_func pos maximizing value_to_beat =
     (if is_over G pos then Fin (get_winner G pos) else Fin (heuristic_func pos))"
| "evaluate_position_recursive (Suc depth) G heuristic_func pos maximizing value_to_beat =
     (if is_over G pos then Fin (get_winner G pos)
      else prune_loop
             (\<lambda>child best. evaluate_position_recursive depth G heuristic_func child (\<not> maximizing) best)
             maximizing value_to_beat (if maximizing then NInf else PInf)
             (get_possible_moves G pos))"

text \<open>
  The loop of \<^verbatim>\<open>choose_move\<close>, and \<^verbatim>\<open>choose_move\<close> called with
  \<^verbatim>\<open>return_heuristic=True\<close>. \<^verbatim>\<open>choose_move\<close> evaluates the moves
  at \<^verbatim>\<open>self.depth - 1\<close>; the model is for a depth of at least 1.
\<close>

fun choose_loop :: "('p \<Rightarrow> npfloat \<Rightarrow> npfloat) \<Rightarrow> bool \<Rightarrow> 'p option \<Rightarrow> npfloat \<Rightarrow> 'p list \<Rightarrow>
    'p option \<times> npfloat" where
  "choose_loop ev maximizing best_move best_heuristic [] = (best_move, best_heuristic)"
| "choose_loop ev maximizing best_move best_heuristic (move # rest) =
     (let heuristic = ev move best_heuristic in
      if (maximizing \<and> np_gt heuristic best_heuristic) \<or> (\<not> maximizing \<and> np_lt heuristic best_heuristic)
      then choose_loop ev maximizing (Some move) heuristic rest
      else choose_loop ev maximizing best_move best_heuristic rest)"

definition choose_move :: "'p game_class \<Rightarrow> ('p \<Rightarrow> real) \<Rightarrow> nat \<Rightarrow> 'p \<Rightarrow> error + 'p option \<times> npfloat" where
  "choose_move G heuristic_func depth pos =
     (if is_over G pos then Inl (Exception ''Game Finished!'')
      else
        (let maximizing = is_player_1_turn G pos in
         Inr (choose_loop
                (\<lambda>move best. evaluate_position_recursive (depth - 1) G heuristic_func move (\<not> maximizing) best)
                maximizing None (if maximizing then NInf else PInf)
                (get_possible_moves G pos))))"

text \<open>
  The search the pruned one is compared with, written from the specification's words: a
  minimax search of the same depth and with the same heuristic that visits every child
  and has no prune rule.
\<close>

fun full_loop :: "('p \<Rightarrow> npfloat) \<Rightarrow> bool \<Rightarrow> npfloat \<Rightarrow> 'p list \<Rightarrow> npfloat" where
  "full_loop ev maximizing best_heuristic [] = best_heuristic"
| "full_loop ev maximizing best_heuristic (child_position # rest) =
     (let heuristic = ev child_position in
      if (maximizing \<and> np_gt heuristic best_heuristic) \<or> (\<not> maximizing \<and> np_lt heuristic best_heuristic)
      then full_loop ev maximizing heuristic rest
      else full_loop ev maximizing best_heuristic rest)"

primrec unpruned_minimax :: "nat \<Rightarrow> 'p game_class \<Rightarrow> ('p \<Rightarrow> real) \<Rightarrow> 'p \<Rightarrow> bool \<Rightarrow> npfloat" where
  "unpruned_minimax 0 G heuristic_func pos maximizing =
     (if is_over G pos then Fin (get_winner G pos) else Fin (heuristic_func pos))"
| "unpruned_minimax (Suc depth) G heuristic_func pos maximizing =
     (if is_over G pos then Fin (get_winner G pos)
      else full_loop (\<lambda>child. unpruned_minimax depth G heuristic_func child (\<not> maximizing))
             maximizing (if maximizing then NInf else PInf) (get_possible_moves G pos))"

definition unpruned_choose_move :: "'p game_class \<Rightarrow> ('p \<Rightarrow> real) \<Rightarrow> nat \<Rightarrow> 'p \<Rightarrow>
    error + 'p option \<times> npfloat" where
  "unpruned_choose_move G heuristic_func depth pos =
     (if is_over G pos then Inl (Exception ''Game Finished!'')
      else
        (let maximizing = is_player_1_turn G pos in
         Inr (choose_loop (\<lambda>move best. unpruned_minimax (depth - 1) G heuristic_func move (\<not> maximizing))
                maximizing None (if maximizing then NInf else PInf)
                (get_possible_moves G pos))))"

section \<open>The order of floats\<close>

text \<open>
  \<open>better maximizing a b\<close>: the value \<open>a\<close> improves on \<open>b\<close> for the player to
  move. \<open>exact_for\<close> relates a pruned evaluation of a child (given the
  \<^verbatim>\<open>value_to_beat\<close> \<open>b\<close>) to its full evaluation: they agree unless the full
  value loses against \<open>b\<close>, and then the pruned value loses against \<open>b\<close> too.
\<close>

definition better :: "bool \<Rightarrow> npfloat \<Rightarrow> npfloat \<Rightarrow> bool" where
  "better m a b = (if m then np_gt a b else np_lt a b)"

definition exact_for :: "bool \<Rightarrow> ('p \<Rightarrow> npfloat \<Rightarrow> npfloat) \<Rightarrow> ('p \<Rightarrow> npfloat) \<Rightarrow> 'p \<Rightarrow> bool" where
  "exact_for m ev ev' c = (ev' c \<noteq> NaN \<and> (\<forall>b. b \<noteq> NaN \<longrightarrow>
      (\<not> better m b (ev' c) \<longrightarrow> ev c b = ev' c) \<and> (better m b (ev' c) \<longrightarrow> better m b (ev c b))))"

section \<open>Solved children\<close>

text \<open>
  The vocabulary of the closure property. \<open>value_of\<close> is the number
  \<^verbatim>\<open>get_evaluation()\<close> returns. \<open>minimax_value\<close> is the largest value of the
  children for the maximizing player and the smallest for the minimizing player.
  \<open>children_all_solved\<close>: the node is not solved itself, has been visited, and has at
  least one child; every child is fully expanded with one of the values -1, 0, 1.
  \<open>solve\<close> is the heap after \<^verbatim>\<open>self.set_fully_expanded(v)\<close>.
\<close>

definition value_of :: "('p, 'm) methods \<Rightarrow> ('p, 'm) node_scheme \<Rightarrow> real" where
  "value_of M n = (case get_evaluation M n of Inr v \<Rightarrow> v | Inl e \<Rightarrow> 0)"

definition minimax_value :: "('p, 'm) methods \<Rightarrow> ('p, 'm) node_scheme heap \<Rightarrow> nat \<Rightarrow> nat list \<Rightarrow> real" where
  "minimax_value M h self cs =
     (if is_maximizing (nodes h self) then Max (set (map (\<lambda>c. value_of M (nodes h c)) cs))
      else Min (set (map (\<lambda>c. value_of M (nodes h c)) cs)))"

definition children_all_solved :: "('p, 'm) methods \<Rightarrow> ('p, 'm) node_scheme heap \<Rightarrow> nat \<Rightarrow> nat list \<Rightarrow> bool" where
  "children_all_solved M h self cs =
     (\<not> fully_expanded (nodes h self) \<and> count_expansions M (nodes h self) \<noteq> 0 \<and>
      children (nodes h self) = Some cs \<and> cs \<noteq> [] \<and>
      list_all (\<lambda>c. fully_expanded (nodes h c) \<and>
                     get_evaluation M (nodes h c) \<in> {Inr (- 1), Inr 0, Inr 1}) cs)"

definition solve :: "('p, 'm) methods \<Rightarrow> ('p, 'm) node_scheme heap \<Rightarrow> nat \<Rightarrow> real \<Rightarrow> ('p, 'm) node_scheme heap" where
  "solve M h self v = modify self (set_fully_expanded M v) h"

section \<open>The weights of choose_best_node as the specification words them\<close>

text \<open>
  Written from the specification's words, for comparison with \<open>child_weight\<close>: weight 0
  for a child that is solved with the losing outcome for the mover; for every other child
  its own expansion count, multiplied by the winning-chance factor
  \<open>(evaluation * sign + 1) / 2\<close> of the node.
\<close>

definition claimed_child_weight :: "('p, 'm) methods \<Rightarrow> ('p, 'm) node_scheme heap \<Rightarrow> nat \<Rightarrow> nat \<Rightarrow> npfloat" where
  "claimed_child_weight M h self child =
     (if fully_expanded (nodes h child) \<and> value_of M (nodes h child) = - optimal_value (nodes h self)
      then Fin 0
      else np_mul (np_of_count (count_expansions M (nodes h child)))
             (Fin ((value_of M (nodes h self) * optimal_value (nodes h self) + 1) / 2)))"

section \<open>Ancestors\<close>

text \<open>
  \<open>chain par node as\<close>: following the parent references \<open>par\<close> from \<open>node\<close>
  visits exactly the nodes \<open>as\<close>, in this order, and then reaches
  \<^verbatim>\<open>None\<close>. For a node \<open>n\<close> of a heap \<open>h\<close>,
  \<open>chain (parent_of h) (parent_of h n) as\<close> says that \<open>as\<close> are the ancestors of
  \<open>n\<close>, from its parent up to the root. \<open>new_child cfg h self c\<close> is the node
  \<^verbatim>\<open>HeuristicNode.ensure_children\<close> creates at the address \<open>c\<close>, and
  \<open>bump\<close> is \<^verbatim>\<open>node.expansions += 1\<close>.
\<close>

fun chain :: "(nat \<Rightarrow> nat option) \<Rightarrow> nat option \<Rightarrow> nat list \<Rightarrow> bool" where
  "chain par None as = (as = [])"
| "chain par (Some n) [] = False"
| "chain par (Some n) (a # as) = (a = n \<and> chain par (par n) as)"

definition parent_of :: "('p, 'm) node_scheme heap \<Rightarrow> nat \<Rightarrow> nat option" where
  "parent_of h i = parent (nodes h i)"

definition new_child :: "'p config \<Rightarrow> 'p HeuristicNode heap \<Rightarrow> nat \<Rightarrow> nat \<Rightarrow> 'p HeuristicNode" where
  "new_child cfg h self c =
     (let move = get_possible_moves (GameClass cfg) (position (nodes h self)) ! (c - next_id h)
      in HeuristicNode_init cfg move (Some self) (Some (network_call cfg move)))"

definition bump :: "'p HeuristicNode \<Rightarrow> 'p HeuristicNode" where
  "bump n = n\<lparr>expansions := expansions n + 1\<rparr>"

section \<open>The exact value of a position\<close>

text \<open>
  \<open>game_value G p v\<close>: the exact minimax value of the position \<open>p\<close> of the game
  \<open>G\<close> is \<open>v\<close>. The value of a terminal position is its outcome; the value of any
  other position is the largest value of the positions its moves lead to when player 1 is
  to move, and the smallest when player 2 is. A position from which the game can go on
  forever, or that is not terminal and has no move, has no value; \<open>finite_game\<close> says
  that every position has one.
\<close>

inductive game_value :: "'p game_class \<Rightarrow> 'p \<Rightarrow> real \<Rightarrow> bool" for G :: "'p game_class" where
  terminal: "is_over G p \<Longrightarrow> game_value G p (get_winner G p)"
| inner: "\<not> is_over G p \<Longrightarrow> vs \<noteq> [] \<Longrightarrow> length vs = length (get_possible_moves G p) \<Longrightarrow>
     (\<And>i. i < length vs \<Longrightarrow> game_value G (get_possible_moves G p ! i) (vs ! i)) \<Longrightarrow>
     game_value G p (if is_player_1_turn G p then Max (set vs) else Min (set vs))"

definition finite_game :: "'p game_class \<Rightarrow> bool" where
  "finite_game G = (\<forall>p. \<exists>v. game_value G p v)"

section \<open>The invariant of a search\<close>

text \<open>
  The heaps a search of the game \<open>G\<close> produces. \<open>search_inv\<close>: among the nodes handed
  out so far, the children of a node are nodes handed out whose \<^verbatim>\<open>parent\<close> is
  that node, and their positions are the positions the moves of the node lead to, in
  order; \<^verbatim>\<open>is_maximizing\<close> says whether player 1 is to move; the evaluation
  of a fully expanded node is the exact value of its position; and a node that is not
  fully expanded has a finite counter and a position that is not terminal.
\<close>

definition search_inv :: "('p, 'm) methods \<Rightarrow> 'p game_class \<Rightarrow> ('p, 'm) node_scheme heap \<Rightarrow> bool" where
  "search_inv M G h =
     ((\<forall>n<next_id h. \<forall>cs. children (nodes h n) = Some cs \<longrightarrow>
         (\<forall>c\<in>set cs. c < next_id h \<and> parent (nodes h c) = Some n)) \<and>
      (\<forall>n<next_id h. \<forall>cs. children (nodes h n) = Some cs \<longrightarrow>
         map (\<lambda>c. position (nodes h c)) cs = get_possible_moves G (position (nodes h n))) \<and>
      (\<forall>n<next_id h. is_maximizing (nodes h n) = is_player_1_turn G (position (nodes h n))) \<and>
      (\<forall>n<next_id h. fully_expanded (nodes h n) \<longrightarrow>
         (\<exists>v. get_evaluation M (nodes h n) = Inr v \<and> game_value G (position (nodes h n)) v)) \<and>
      (\<forall>n<next_id h. \<not> fully_expanded (nodes h n) \<longrightarrow>
         \<not> is_over G (position (nodes h n)) \<and> count_expansions M (nodes h n) \<noteq> \<infinity>))"

text \<open>
  \<open>open_path h node\<close>: following the parent references from \<open>node\<close> reaches the
  root, and every node on the way (\<open>node\<close> included) has been handed out and is not
  fully expanded.
\<close>

definition open_path :: "('p, 'm) node_scheme heap \<Rightarrow> nat option \<Rightarrow> bool" where
  "open_path h node =
     (\<exists>as. chain (parent_of h) node as \<and> (\<forall>a\<in>set as. a < next_id h \<and> \<not> fully_expanded (nodes h a)))"

text \<open>The game contract: the outcome of a terminal position is -1, 0 or 1.\<close>

definition terminal_outcomes :: "'p game_class \<Rightarrow> bool" where
  "terminal_outcomes G = (\<forall>p. is_over G p \<longrightarrow> get_winner G p \<in> {- 1, 0, 1})"

text \<open>
  What the selection algorithm needs of the methods of a variant: \<^verbatim>\<open>ensure_children\<close>
  on a node that is not fully expanded keeps \<open>search_inv\<close>, changes no other node handed
  out before, and keeps the node's parent, its flag and a count that is not 0;
  \<^verbatim>\<open>set_fully_expanded(v)\<close> sets the flag and the evaluation \<open>v\<close> and keeps
  position, player, parent and children; and the exploration score of a node with a
  finite count other than 0 is not \<^verbatim>\<open>nan\<close>. Both variants are lawful
  (\<open>RolloutNode_lawful\<close>, \<open>HeuristicNode_lawful\<close> below).
\<close>

definition lawful :: "('p, 'm) methods \<Rightarrow> 'p game_class \<Rightarrow> bool" where
  "lawful M G =
     ((\<forall>h self h1. search_inv M G h \<longrightarrow> self < next_id h \<longrightarrow> \<not> fully_expanded (nodes h self) \<longrightarrow>
         ensure_children M h self = Inr h1 \<longrightarrow>
           search_inv M G h1 \<and> next_id h \<le> next_id h1 \<and>
           (\<forall>i<next_id h. i \<noteq> self \<longrightarrow> nodes h1 i = nodes h i) \<and>
           parent (nodes h1 self) = parent (nodes h self) \<and>
           \<not> fully_expanded (nodes h1 self) \<and>
           (count_expansions M (nodes h self) \<noteq> 0 \<longrightarrow> count_expansions M (nodes h1 self) \<noteq> 0)) \<and>
      (\<forall>v n. fully_expanded (set_fully_expanded M v n) \<and>
         position (set_fully_expanded M v n) = position n \<and>
         is_maximizing (set_fully_expanded M v n) = is_maximizing n \<and>
         parent (set_fully_expanded M v n) = parent n \<and>
         children (set_fully_expanded M v n) = children n \<and>
         get_evaluation M (set_fully_expanded M v n) = Inr v) \<and>
      (\<forall>h self i p. count_expansions M (nodes h self) \<noteq> 0 \<longrightarrow>
         count_expansions M (nodes h self) \<noteq> \<infinity> \<longrightarrow>
         get_puct_heuristic_for_child M h self i = Inr p \<longrightarrow> p \<noteq> NaN))"

text \<open>
  \<open>keeps_solved h h'\<close>: every node handed out in \<open>h\<close> is still there in \<open>h'\<close>, with
  the same parent, and the fully expanded ones are unchanged, field by field.
  \<open>stays_solved M G h h' n\<close> is what this means for one node \<open>n\<close>: in \<open>h'\<close> it is
  fully expanded, for the same position and with the same evaluation as in \<open>h\<close>; this
  evaluation is one of -1, 0, 1, and it is the exact value of the position.
\<close>

definition keeps_solved :: "('p, 'm) node_scheme heap \<Rightarrow> ('p, 'm) node_scheme heap \<Rightarrow> bool" where
  "keeps_solved h h' =
     (next_id h \<le> next_id h' \<and>
      (\<forall>q<next_id h. fully_expanded (nodes h q) \<longrightarrow> nodes h' q = nodes h q) \<and>
      (\<forall>q<next_id h. parent (nodes h' q) = parent (nodes h q)))"

definition stays_solved :: "('p, 'm) methods \<Rightarrow> 'p game_class \<Rightarrow> ('p, 'm) node_scheme heap \<Rightarrow>
    ('p, 'm) node_scheme heap \<Rightarrow> nat \<Rightarrow> bool" where
  "stays_solved M G h h' n =
     (fully_expanded (nodes h' n) \<and>
      position (nodes h' n) = position (nodes h n) \<and>
      get_evaluation M (nodes h' n) = get_evaluation M (nodes h n) \<and>
      (\<exists>v\<in>{- 1, 0, 1}. get_evaluation M (nodes h' n) = Inr v \<and> game_value G (position (nodes h' n)) v))"

text \<open>
  The loop of the search drivers (\<^verbatim>\<open>MCTS.choose_move\<close>,
  \<^verbatim>\<open>AsyncMCTS.loop_func\<close>), run for at most \<open>k\<close> iterations:
  \<^verbatim>\<open>best_node = root.choose_expansion_node()\<close>, leave the loop if it is
  \<^verbatim>\<open>None\<close>, else \<^verbatim>\<open>best_node.expand()\<close>. The clock that ends the
  loop is not modelled; \<open>expand i\<close> is \<^verbatim>\<open>expand\<close> in the iteration with
  \<open>i\<close> iterations left.
\<close>

primrec search_loop :: "nat \<Rightarrow> nat \<Rightarrow> ('p, 'm) methods \<Rightarrow>
    (nat \<Rightarrow> ('p, 'm) node_scheme heap \<Rightarrow> nat \<Rightarrow> (error + ('p, 'm) node_scheme heap) option) \<Rightarrow>
    ('p, 'm) node_scheme heap \<Rightarrow> nat \<Rightarrow> (error + ('p, 'm) node_scheme heap) option" where
  "search_loop 0 fuel M expand h rt = Some (Inr h)"
| "search_loop (Suc k) fuel M expand h rt =
     (case choose_expansion_node fuel M h rt of
        None \<Rightarrow> None
      | Some (Inl e) \<Rightarrow> Some (Inl e)
      | Some (Inr (h1, None)) \<Rightarrow> Some (Inr h1)
      | Some (Inr (h1, Some best_node)) \<Rightarrow>
          (case expand k h1 best_node of
             None \<Rightarrow> None
           | Some (Inl e) \<Rightarrow> Some (Inl e)
           | Some (Inr h2) \<Rightarrow> search_loop k fuel M expand h2 rt))"

section \<open>Concrete heaps\<close>

text \<open>
  Three rollout nodes without children: a baseline with count 10 and sum 3 at address 0,
  and two clones of it, with count 15, sum 5 and count 20, sum 6, at addresses 1 and 2.
\<close>

definition rollout_leaf :: "real \<Rightarrow> enat \<Rightarrow> unit RolloutNode" where
  "rollout_leaf s n = \<lparr>position = (), parent = None, fully_expanded = False, is_maximizing = True,
     children = None, rollout_sum = s, rollout_count = n\<rparr>"

definition merge_heap :: "unit RolloutNode heap" where
  "merge_heap =
     \<lparr>nodes = (\<lambda>i. if i = 0 then rollout_leaf 3 (enat 10)
                   else if i = 1 then rollout_leaf 5 (enat 15)
                   else rollout_leaf 6 (enat 20)),
      next_id = 3\<rparr>"

text \<open>
  A game tree for MiniMax: position 0 (player 1 to move) has the moves 1 and 2, position 1
  the moves 3 and 4, position 2 the moves 5 and 6. No position is terminal; the heuristic
  values of 3, 4, 5, 6 are 0.3, 0.5, 0.1, 0.9. At depth 2 the search of position 2 is
  pruned after the move 5.
\<close>

definition minimax_game :: "nat game_class" where
  "minimax_game =
     \<lparr>is_over = (\<lambda>p. False), is_player_1_turn = (\<lambda>p. p = 0),
      get_possible_moves = (\<lambda>p. if p = 0 then [1, 2] else if p = 1 then [3, 4]
                                 else if p = 2 then [5, 6] else []),
      get_winner = (\<lambda>p. 0)\<rparr>"

definition minimax_heuristic :: "nat \<Rightarrow> real" where
  "minimax_heuristic p = (if p = 3 then 0.3 else if p = 4 then 0.5 else if p = 5 then 0.1 else 0.9)"

text \<open>
  A small game. Position 0 (player 1 to move) has the moves 1 and 2; position 2 (player 2
  to move) and position 5 (player 1 to move) have the moves 3 and 4; position 6 (player 1
  to move) has the moves 4 and 2. Every other position is terminal; the outcome of
  position 1 is 1, the outcome of position 3 is -1, and all other outcomes are 0.
\<close>

definition tiny_game :: "nat game_class" where
  "tiny_game =
     \<lparr>is_over = (\<lambda>p. p \<noteq> 0 \<and> p \<noteq> 2 \<and> p \<noteq> 5 \<and> p \<noteq> 6),
      is_player_1_turn = (\<lambda>p. p = 0 \<or> p = 5 \<or> p = 6),
      get_possible_moves = (\<lambda>p. if p = 0 then [1, 2] else if p = 2 \<or> p = 5 then [3, 4]
                                 else if p = 6 then [4, 2] else []),
      get_winner = (\<lambda>p. if p = 1 then 1 else if p = 3 then - 1 else 0)\<rparr>"

definition tiny_cfg :: "nat config" where
  "tiny_cfg = \<lparr>GameClass = tiny_game, param_c = 1, param_d = 1, rollout_batch_size = 1,
     network_call = (\<lambda>p. ([0.5, 0.5], 0))\<rparr>"

text \<open>
  A node for position 5 at address 0 that has been visited once, with its two children,
  the terminal positions 3 and 4, at the addresses 1 and 2: once as rollout nodes, once
  as heuristic nodes.
\<close>

definition closure_heap_rollout :: "nat RolloutNode heap" where
  "closure_heap_rollout =
     \<lparr>nodes = (\<lambda>i. if i = 0 then (RolloutNode_init tiny_cfg 5 None)
                              \<lparr>children := Some [1, 2], rollout_count := enat 1\<rparr>
                   else if i = 1 then RolloutNode_init tiny_cfg 3 (Some 0)
                   else RolloutNode_init tiny_cfg 4 (Some 0)),
      next_id = 3\<rparr>"

definition closure_heap_heuristic :: "nat HeuristicNode heap" where
  "closure_heap_heuristic =
     \<lparr>nodes = (\<lambda>i. if i = 0 then (HeuristicNode_init tiny_cfg 5 None None)
                              \<lparr>children := Some [1, 2], expansions := enat 1\<rparr>
                   else if i = 1 then HeuristicNode_init tiny_cfg 3 (Some 0) None
                   else HeuristicNode_init tiny_cfg 4 (Some 0) None),
      next_id = 3\<rparr>"

text \<open>
  A rollout node for position 6 at address 0 that has been visited once, with its children
  at the addresses 1 (the terminal position 4) and 2 (position 2, not yet visited).
\<close>

definition unvisited_heap :: "nat RolloutNode heap" where
  "unvisited_heap =
     \<lparr>nodes = (\<lambda>i. if i = 0 then (RolloutNode_init tiny_cfg 6 None)
                              \<lparr>children := Some [1, 2], rollout_count := enat 1, rollout_sum := 1\<rparr>
                   else if i = 1 then RolloutNode_init tiny_cfg 4 (Some 0)
                   else RolloutNode_init tiny_cfg 2 (Some 0)),
      next_id = 3\<rparr>"

text \<open>
  Two heuristic nodes for position 2 without children, at the addresses 0 and 1.
\<close>

definition heuristic_leaf_heap :: "nat HeuristicNode heap" where
  "heuristic_leaf_heap = \<lparr>nodes = (\<lambda>i. HeuristicNode_init tiny_cfg 2 None None), next_id = 2\<rparr>"

text \<open>
  A rollout search of position 0 after its second call of
  \<^verbatim>\<open>choose_expansion_node\<close>: the root (address 0) has been visited and has
  its children at the addresses 1 (the terminal position 1, won by player 1) and 2
  (position 2, not visited); the call has marked the root fully expanded with the value 1.
\<close>

definition solved_root_heap :: "nat RolloutNode heap" where
  "solved_root_heap =
     \<lparr>nodes = (\<lambda>i. if i = 0 then (RolloutNode_init tiny_cfg 0 None)
                              \<lparr>children := Some [1, 2], rollout_sum := 1, rollout_count := \<infinity>,
                               fully_expanded := True\<rparr>
                   else if i = 1 then RolloutNode_init tiny_cfg 1 (Some 0)
                   else if i = 2 then RolloutNode_init tiny_cfg 2 (Some 0)
                   else RolloutNode_init tiny_cfg 0 None),
      next_id = 3\<rparr>"

text \<open>The same search when it starts: the root alone.\<close>

definition root_heap :: "nat RolloutNode heap" where
  "root_heap = \<lparr>nodes = (\<lambda>i. RolloutNode_init tiny_cfg 0 None), next_id = 1\<rparr>"

text \<open>
  A rollout node for position 6 at address 0 with count 4 and sum 2 (evaluation 0.5), and
  its children: the terminal position 4 (a draw) at address 1, and position 2 at address 2,
  visited twice.
\<close>

definition best_move_heap :: "nat RolloutNode heap" where
  "best_move_heap =
     \<lparr>nodes = (\<lambda>i. if i = 0 then (RolloutNode_init tiny_cfg 6 None)
                              \<lparr>children := Some [1, 2], rollout_count := enat 4, rollout_sum := 2\<rparr>
                   else if i = 1 then RolloutNode_init tiny_cfg 4 (Some 0)
                   else (RolloutNode_init tiny_cfg 2 (Some 0))
                              \<lparr>rollout_count := enat 2, rollout_sum := 1\<rparr>),
      next_id = 3\<rparr>"

text \<open>
  A game on a binary tree (position \<open>p\<close> has the moves \<open>2p + 1\<close> and \<open>2p + 2\<close>,
  no position is terminal), a network that values the positions 7 and 8 at 0.3 and 0.4,
  and a heuristic search of it: the root (position 0, maximizing, value 0.6) at address 0,
  its children at 1 and 2, and the children of the node at address 1 (minimizing, value
  0.5) at 3 and 4. The node at address 3 (position 3, maximizing) has not been expanded.
\<close>

definition binary_game :: "nat game_class" where
  "binary_game =
     \<lparr>is_over = (\<lambda>p. False), is_player_1_turn = (\<lambda>p. p = 0 \<or> (3 \<le> p \<and> p \<le> 6)),
      get_possible_moves = (\<lambda>p. [2 * p + 1, 2 * p + 2]), get_winner = (\<lambda>p. 0)\<rparr>"

definition binary_cfg :: "nat config" where
  "binary_cfg = \<lparr>GameClass = binary_game, param_c = 1, param_d = 1, rollout_batch_size = 1,
     network_call = (\<lambda>p. ([0.5, 0.5], if p = 7 then 0.3 else if p = 8 then 0.4 else 0))\<rparr>"

definition backup_heap :: "nat HeuristicNode heap" where
  "backup_heap =
     \<lparr>nodes = (\<lambda>i. if i = 0 then
                     \<lparr>position = 0, parent = None, fully_expanded = False, is_maximizing = True,
                      children = Some [1, 2], heuristic = 0.6, policy = Some [0.5, 0.5],
                      expansions = enat 2\<rparr>
                   else if i = 1 then
                     \<lparr>position = 1, parent = Some 0, fully_expanded = False, is_maximizing = False,
                      children = Some [3, 4], heuristic = 0.5, policy = Some [0.5, 0.5],
                      expansions = enat 1\<rparr>
                   else if i = 2 then HeuristicNode_init binary_cfg 2 (Some 0) None
                   else if i = 3 then HeuristicNode_init binary_cfg 3 (Some 1) None
                   else HeuristicNode_init binary_cfg 4 (Some 1) None),
      next_id = 5\<rparr>"

section \<open>Evaluating the concrete heaps\<close>

lemmas ex_defs = tiny_cfg_def tiny_game_def RolloutNode_init_def HeuristicNode_init_def
  RolloutNode_methods_def HeuristicNode_methods_def RolloutNode_get_evaluation_def
  HeuristicNode_get_evaluation_def optimal_value_def zero_enat_def one_enat_def

section \<open>RolloutNode.merge: the statistics of the merged node\<close>

text \<open>
  After the first assignment of \<^verbatim>\<open>RolloutNode.merge\<close> the count of the node is
  at least the count of every clone, so the filter of the second assignment lets no clone
  pass: the two assignments never change \<^verbatim>\<open>rollout_sum\<close>.
\<close>

lemma merged_count_dominates:
  fixes c :: enat
  assumes "x \<in> set xs"
  shows "f x \<le> c + sum_list (map (\<lambda>y. f y - c) (filter (\<lambda>y. f y > c) xs))"
proof (cases "f x > c")
  case True
  then have "f x - c \<in> set (map (\<lambda>y. f y - c) (filter (\<lambda>y. f y > c) xs))"
    using assms by auto
  then have "f x - c \<le> sum_list (map (\<lambda>y. f y - c) (filter (\<lambda>y. f y > c) xs))"
    by (rule member_le_sum_list) simp_all
  then have "c + (f x - c) \<le> c + sum_list (map (\<lambda>y. f y - c) (filter (\<lambda>y. f y > c) xs))"
    by (rule add_left_mono)
  moreover have "c + (f x - c) = f x" using True by (cases c; cases "f x") auto
  ultimately show ?thesis by simp
next
  case False
  then have "f x \<le> c" by simp
  then show ?thesis by (rule order_trans) simp
qed

lemma RolloutNode_merge_sum_unchanged:
  "rollout_sum (nodes (RolloutNode_merge_sum (RolloutNode_merge_count h self clones) self clones) self)
     = rollout_sum (nodes h self)"
proof -
  let ?c = "rollout_count (nodes h self)"
  let ?f = "\<lambda>y. rollout_count (nodes h y)"
  let ?c' = "?c + sum_list (map (\<lambda>y. ?f y - ?c) (filter (\<lambda>y. ?f y > ?c) clones))"
  let ?h1 = "RolloutNode_merge_count h self clones"
  have c1: "rollout_count (nodes ?h1 self) = ?c'"
    by (simp add: RolloutNode_merge_count_def modify_def)
  have others: "\<And>x. x \<noteq> self \<Longrightarrow> rollout_count (nodes ?h1 x) = ?f x"
    by (simp add: RolloutNode_merge_count_def modify_def)
  have "\<And>x. x \<in> set clones \<Longrightarrow> \<not> rollout_count (nodes ?h1 x) > rollout_count (nodes ?h1 self)"
  proof -
    fix x assume x: "x \<in> set clones"
    show "\<not> rollout_count (nodes ?h1 x) > rollout_count (nodes ?h1 self)"
    proof (cases "x = self")
      case True
      then show ?thesis by simp
    next
      case False
      have "?f x \<le> ?c'" using merged_count_dominates[OF x, of ?f ?c] .
      then show ?thesis unfolding c1 others[OF False] by simp
    qed
  qed
  then have "filter (\<lambda>clone. rollout_count (nodes ?h1 clone) > rollout_count (nodes ?h1 self)) clones = []"
    by (simp add: filter_empty_conv)
  then have "rollout_sum (nodes (RolloutNode_merge_sum ?h1 self clones) self) = rollout_sum (nodes ?h1 self)"
    by (simp add: RolloutNode_merge_sum_def modify_def)
  also have "\<dots> = rollout_sum (nodes h self)"
    by (simp add: RolloutNode_merge_count_def modify_def)
  finally show ?thesis .
qed

text \<open>
  C1. The claim: merging the clones (count 15, sum 5) and (count 20, sum 6) into the
  baseline (count 10, sum 3) yields count 25 and sum 8. The code yields count 25, but the
  sum stays 3: the second list comprehension of \<^verbatim>\<open>RolloutNode.merge\<close> filters
  the clones by \<^verbatim>\<open>clone.rollout_count > self.rollout_count\<close> after
  \<^verbatim>\<open>self.rollout_count\<close> has become 25, so no clone passes (this is so for every
  merge, \<open>RolloutNode_merge_sum_unchanged\<close>).
\<close>

theorem C1_merge_example_sum_unchanged:
  "map_option (map_sum id (\<lambda>h. (rollout_count (nodes h 0), rollout_sum (nodes h 0))))
     (RolloutNode_merge (Suc 0) merge_heap 0 [1, 2]) = Some (Inr (enat 25, 3))"
  by (simp add: merge_heap_def rollout_leaf_def merge_children_clones_def
      RolloutNode_merge_sum_def RolloutNode_merge_count_def modify_def)

section \<open>MiniMax: pruning does not change the result\<close>

lemma np_gt_irrefl: "\<not> np_gt a a"
  by (cases a) auto

lemma np_gt_trans: "np_gt a b \<Longrightarrow> np_gt b c \<Longrightarrow> np_gt a c"
  by (cases a; cases b; cases c) auto

lemma np_gt_total: "a \<noteq> NaN \<Longrightarrow> b \<noteq> NaN \<Longrightarrow> np_gt a b \<or> a = b \<or> np_gt b a"
  by (cases a; cases b) auto

lemma better_irrefl: "\<not> better m a a"
  by (simp add: better_def np_lt_def np_gt_irrefl)

lemma better_trans: "better m a b \<Longrightarrow> better m b c \<Longrightarrow> better m a c"
  by (auto simp: better_def np_lt_def intro: np_gt_trans split: if_splits)

lemma better_total: "a \<noteq> NaN \<Longrightarrow> b \<noteq> NaN \<Longrightarrow> better m a b \<or> a = b \<or> better m b a"
  using np_gt_total[of a b] by (auto simp: better_def np_lt_def)

lemma better_asym: "better m a b \<Longrightarrow> \<not> better m b a"
  using better_trans better_irrefl by blast

lemma better_flip: "better (\<not> m) a b = better m b a"
  by (simp add: better_def np_lt_def)

lemma prune_loop_better:
  "prune_loop ev m vtb best (c # rest) =
     (let h = ev c best in
      if better m h best then (if better m h vtb then h else prune_loop ev m vtb h rest)
      else prune_loop ev m vtb best rest)"
  by (simp add: better_def Let_def)

lemma full_loop_better:
  "full_loop ev m best (c # rest) =
     (let h = ev c in if better m h best then full_loop ev m h rest else full_loop ev m best rest)"
  by (simp add: better_def Let_def)

lemma choose_loop_better:
  "choose_loop ev m bm best (c # rest) =
     (let h = ev c best in if better m h best then choose_loop ev m (Some c) h rest
      else choose_loop ev m bm best rest)"
  by (simp add: better_def Let_def)

lemma full_loop_not_worse:
  "\<forall>c\<in>set cs. ev' c \<noteq> NaN \<Longrightarrow> best \<noteq> NaN \<Longrightarrow>
     full_loop ev' m best cs \<noteq> NaN \<and> \<not> better m best (full_loop ev' m best cs)"
proof (induction cs arbitrary: best)
  case Nil
  then show ?case by (simp add: better_irrefl)
next
  case (Cons c cs)
  show ?case
  proof (cases "better m (ev' c) best")
    case True
    have "full_loop ev' m (ev' c) cs \<noteq> NaN \<and> \<not> better m (ev' c) (full_loop ev' m (ev' c) cs)"
      using Cons.IH[of "ev' c"] Cons.prems by simp
    then show ?thesis using True
      by (auto simp: full_loop_better Let_def simp del: full_loop.simps dest: better_trans better_asym)
  next
    case False
    then show ?thesis using Cons.IH[of best] Cons.prems
      by (simp add: full_loop_better Let_def del: full_loop.simps)
  qed
qed

lemma prune_loop_exact:
  assumes "\<forall>c\<in>set cs. exact_for m ev ev' c" "best \<noteq> NaN" "vtb \<noteq> NaN" "\<not> better m best vtb"
  shows "(\<not> better m (full_loop ev' m best cs) vtb \<longrightarrow> prune_loop ev m vtb best cs = full_loop ev' m best cs)
       \<and> (better m (full_loop ev' m best cs) vtb \<longrightarrow> better m (prune_loop ev m vtb best cs) vtb)"
  using assms
proof (induction cs arbitrary: best)
  case Nil
  then show ?case by simp
next
  case (Cons c cs)
  have ex: "exact_for m ev ev' c" and rest: "\<forall>c\<in>set cs. exact_for m ev ev' c"
    using Cons.prems(1) by simp_all
  have e_num: "ev' c \<noteq> NaN" using ex by (simp add: exact_for_def)
  have all_num: "\<forall>c\<in>set cs. ev' c \<noteq> NaN" using rest by (simp add: exact_for_def)
  show ?case
  proof (cases "better m (ev' c) best")
    case True
    then have "\<not> better m best (ev' c)" by (rule better_asym)
    then have h: "ev c best = ev' c" using ex Cons.prems(2) by (simp add: exact_for_def)
    show ?thesis
    proof (cases "better m (ev' c) vtb")
      case True
      have "\<not> better m (ev' c) (full_loop ev' m (ev' c) cs)" "full_loop ev' m (ev' c) cs \<noteq> NaN"
        using full_loop_not_worse[OF all_num e_num] by simp_all
      then have "better m (full_loop ev' m (ev' c) cs) vtb"
        using True better_total[of "ev' c" "full_loop ev' m (ev' c) cs" m] e_num
        by (auto dest: better_trans)
      then show ?thesis using True \<open>better m (ev' c) best\<close> h
        by (simp add: prune_loop_better full_loop_better Let_def del: prune_loop.simps full_loop.simps)
    next
      case False
      then show ?thesis using \<open>better m (ev' c) best\<close> h Cons.IH[OF rest e_num Cons.prems(3) False]
        by (simp add: prune_loop_better full_loop_better Let_def del: prune_loop.simps full_loop.simps)
    qed
  next
    case False
    have "\<not> better m (ev c best) best"
    proof (cases "better m best (ev' c)")
      case True
      then have "better m best (ev c best)" using ex Cons.prems(2) by (simp add: exact_for_def)
      then show ?thesis by (rule better_asym)
    next
      case nb: False
      then have "ev c best = ev' c" using ex Cons.prems(2) by (simp add: exact_for_def)
      then show ?thesis using False by simp
    qed
    then show ?thesis using False Cons.IH[OF rest Cons.prems(2) Cons.prems(3) Cons.prems(4)]
      by (simp add: prune_loop_better full_loop_better Let_def del: prune_loop.simps full_loop.simps)
  qed
qed

lemma unpruned_num: "unpruned_minimax d G hf pos m \<noteq> NaN"
proof (induction d arbitrary: pos m)
  case 0
  then show ?case by simp
next
  case (Suc d)
  have "full_loop (\<lambda>child. unpruned_minimax d G hf child (\<not> m)) m (if m then NInf else PInf)
          (get_possible_moves G pos) \<noteq> NaN"
    using full_loop_not_worse[of "get_possible_moves G pos"
        "\<lambda>child. unpruned_minimax d G hf child (\<not> m)" "if m then NInf else PInf" m] Suc.IH
    by simp
  then show ?case by simp
qed

lemma evaluate_exact:
  "vtb \<noteq> NaN \<Longrightarrow>
   (\<not> better m (unpruned_minimax d G hf pos m) vtb \<longrightarrow>
      evaluate_position_recursive d G hf pos m vtb = unpruned_minimax d G hf pos m) \<and>
   (better m (unpruned_minimax d G hf pos m) vtb \<longrightarrow>
      better m (evaluate_position_recursive d G hf pos m vtb) vtb)"
proof (induction d arbitrary: pos m vtb)
  case 0
  then show ?case by simp
next
  case (Suc d)
  let ?ev = "\<lambda>child best. evaluate_position_recursive d G hf child (\<not> m) best"
  let ?ev' = "\<lambda>child. unpruned_minimax d G hf child (\<not> m)"
  have ex: "\<forall>c\<in>set (get_possible_moves G pos). exact_for m ?ev ?ev' c"
    unfolding exact_for_def using Suc.IH[of _ "\<not> m"] unpruned_num[of d G hf _ "\<not> m"]
    by (simp add: better_flip)
  have init: "(if m then NInf else PInf) \<noteq> NaN" "\<not> better m (if m then NInf else PInf) vtb"
    using Suc.prems by (cases vtb; simp add: better_def np_lt_def)+
  show ?case
    using prune_loop_exact[OF ex init(1) Suc.prems init(2)]
    by simp
qed

lemma choose_loop_exact:
  assumes "\<forall>c\<in>set cs. exact_for m ev ev' c" "best \<noteq> NaN"
  shows "choose_loop ev m bm best cs = choose_loop (\<lambda>c b. ev' c) m bm best cs"
  using assms
proof (induction cs arbitrary: bm best)
  case Nil
  then show ?case by simp
next
  case (Cons c cs)
  have ex: "exact_for m ev ev' c" and rest: "\<forall>c\<in>set cs. exact_for m ev ev' c"
    using Cons.prems(1) by simp_all
  have e_num: "ev' c \<noteq> NaN" using ex by (simp add: exact_for_def)
  show ?case
  proof (cases "better m best (ev' c)")
    case True
    then have "better m best (ev c best)" using ex Cons.prems(2) by (simp add: exact_for_def)
    then have "\<not> better m (ev c best) best" "\<not> better m (ev' c) best"
      using True by (auto dest: better_asym)
    then show ?thesis using Cons.IH[OF rest Cons.prems(2)]
      by (simp add: choose_loop_better Let_def del: choose_loop.simps)
  next
    case False
    then have "ev c best = ev' c" using ex Cons.prems(2) by (simp add: exact_for_def)
    then show ?thesis using Cons.IH[OF rest Cons.prems(2)] Cons.IH[OF rest e_num]
      by (simp add: choose_loop_better Let_def del: choose_loop.simps)
  qed
qed

text \<open>
  C5. For every game, heuristic function, position and depth of at least 1,
  \<^verbatim>\<open>choose_move\<close> with the prune rule of
  \<^verbatim>\<open>evaluate_position_recursive\<close> returns the same move and the same value
  (or raises the same exception) as the search of the same depth without the prune rule.
\<close>

theorem C5_alpha_beta_equivalence: "0 < depth \<Longrightarrow> choose_move G hf depth pos = unpruned_choose_move G hf depth pos"
proof -
  let ?m = "is_player_1_turn G pos"
  let ?ev = "\<lambda>move best. evaluate_position_recursive (depth - 1) G hf move (\<not> ?m) best"
  let ?ev' = "\<lambda>move. unpruned_minimax (depth - 1) G hf move (\<not> ?m)"
  have ex: "\<forall>c\<in>set (get_possible_moves G pos). exact_for ?m ?ev ?ev' c"
    unfolding exact_for_def using evaluate_exact[of _ "\<not> ?m" "depth - 1" G hf] unpruned_num[of "depth - 1" G hf _ "\<not> ?m"]
    by (simp add: better_flip)
  have "(if ?m then NInf else PInf) \<noteq> NaN" by simp
  from choose_loop_exact[OF ex this] show ?thesis
    by (simp add: choose_move_def unpruned_choose_move_def Let_def)
qed

theorem C5_alpha_beta_equivalence_witness:
  "choose_move minimax_game minimax_heuristic 2 0 = Inr (Some 1, Fin 0.3) \<and>
   unpruned_choose_move minimax_game minimax_heuristic 2 0 = Inr (Some 1, Fin 0.3)"
proof -
  have pruned: "choose_move minimax_game minimax_heuristic 2 0 = Inr (Some 1, Fin 0.3)"
    by (simp add: choose_move_def minimax_game_def minimax_heuristic_def np_lt_def)
  have "(0::nat) < 2" by simp
  from C5_alpha_beta_equivalence[OF this, of minimax_game minimax_heuristic 0] pruned
  show ?thesis by simp
qed

section \<open>choose_expansion_node: a node whose children are all solved\<close>

lemma scan_all_solved:
  assumes "list_all (\<lambda>c. fully_expanded (nodes h c) \<and> (\<exists>v. get_evaluation M (nodes h c) = Inr v)) rest"
  shows "scan_children M h self i rest best bc =
     Inr (if \<exists>c\<in>set rest. value_of M (nodes h c) = optimal_value (nodes h self)
          then Optimal_child else Loop_end bc)"
  using assms
  by (induction rest arbitrary: i) (auto simp: value_of_def)

lemma sequence_all_Inr:
  "list_all (\<lambda>x. \<exists>v. f x = Inr v) xs \<Longrightarrow>
   sequence (map f xs) = Inr (map (\<lambda>x. case f x of Inr v \<Rightarrow> v | Inl e \<Rightarrow> d) xs)"
  by (induction xs) auto

lemma py_max_Max: "xs \<noteq> [] \<Longrightarrow> py_max xs = Inr (Max (set xs))"
proof (cases xs)
  case Nil
  assume "xs \<noteq> []"
  with Nil show ?thesis by simp
next
  case (Cons a list)
  then show ?thesis using Max.set_eq_fold[of a list] by simp
qed

lemma py_min_Min: "xs \<noteq> [] \<Longrightarrow> py_min xs = Inr (Min (set xs))"
proof (cases xs)
  case Nil
  assume "xs \<noteq> []"
  with Nil show ?thesis by simp
next
  case (Cons a list)
  then show ?thesis using Min.set_eq_fold[of a list] by simp
qed

lemma minimax_of_children_solved:
  assumes "list_all (\<lambda>c. \<exists>v. get_evaluation M (nodes h c) = Inr v) cs" "cs \<noteq> []"
  shows "minimax_of_children M h (is_maximizing (nodes h self)) cs = Inr (minimax_value M h self cs)"
  using assms sequence_all_Inr[of "\<lambda>c. get_evaluation M (nodes h c)" cs 0]
  by (simp add: minimax_of_children_def minimax_value_def value_of_def py_max_Max py_min_Min)

lemma optimal_is_minimax:
  assumes "list_all (\<lambda>c. value_of M (nodes h c) \<in> {- 1, 0, 1}) cs"
    and "\<exists>c\<in>set cs. value_of M (nodes h c) = optimal_value (nodes h self)"
  shows "minimax_value M h self cs = optimal_value (nodes h self)"
proof -
  let ?S = "set (map (\<lambda>c. value_of M (nodes h c)) cs)"
  have fin: "finite ?S" by simp
  have bound: "\<forall>x\<in>?S. - 1 \<le> x \<and> x \<le> 1" using assms(1) by (auto simp: list_all_iff)
  have mem: "optimal_value (nodes h self) \<in> ?S" using assms(2) by force
  show ?thesis
  proof (cases "is_maximizing (nodes h self)")
    case True
    then have "Max ?S = 1"
      using mem bound fin by (intro Max_eqI) (auto simp: optimal_value_def)
    then show ?thesis using True by (simp add: minimax_value_def optimal_value_def)
  next
    case False
    then have "Min ?S = - 1"
      using mem bound fin by (intro Min_eqI) (auto simp: optimal_value_def)
    then show ?thesis using False by (simp add: minimax_value_def optimal_value_def)
  qed
qed

lemma closure_generic:
  assumes cas: "children_all_solved M h self cs"
    and ens: "ensure_children M h self = Inr h"
    and par: "\<And>v. parent (set_fully_expanded M v (nodes h self)) = parent (nodes h self)"
  shows "choose_expansion_node (Suc fuel) M h self =
     (case parent (nodes h self) of
        Some p \<Rightarrow> choose_expansion_node fuel M (solve M h self (minimax_value M h self cs)) p
      | None \<Rightarrow> Some (Inr (solve M h self (minimax_value M h self cs), None)))"
proof -
  have solved: "list_all (\<lambda>c. fully_expanded (nodes h c) \<and> (\<exists>v. get_evaluation M (nodes h c) = Inr v)) cs"
    using cas by (auto simp: children_all_solved_def list_all_iff)
  have ev: "list_all (\<lambda>c. \<exists>v. get_evaluation M (nodes h c) = Inr v) cs"
    using solved by (simp add: list_all_iff)
  have vals: "list_all (\<lambda>c. value_of M (nodes h c) \<in> {- 1, 0, 1}) cs"
    using cas by (auto simp: children_all_solved_def list_all_iff value_of_def)
  have basics: "\<not> fully_expanded (nodes h self)" "count_expansions M (nodes h self) \<noteq> 0"
    "children (nodes h self) = Some cs" "cs \<noteq> []"
    using cas by (simp_all add: children_all_solved_def)
  have p2: "\<And>v. parent (nodes (modify self (set_fully_expanded M v) h) self) = parent (nodes h self)"
    by (simp add: modify_def par)
  show ?thesis
  proof (cases "\<exists>c\<in>set cs. value_of M (nodes h c) = optimal_value (nodes h self)")
    case True
    have "minimax_value M h self cs = optimal_value (nodes h self)"
      using optimal_is_minimax[OF vals True] .
    then show ?thesis using True basics ens p2
      by (simp add: scan_all_solved[OF solved] solve_def Let_def split: option.split)
  next
    case False
    then show ?thesis using basics ens p2 minimax_of_children_solved[OF ev basics(4), of self]
      by (simp add: scan_all_solved[OF solved] solve_def Let_def split: option.split)
  qed
qed

lemma RolloutNode_closure:
  assumes "children_all_solved (RolloutNode_methods cfg) h self cs"
  shows "choose_expansion_node (Suc fuel) (RolloutNode_methods cfg) h self =
     (case parent (nodes h self) of
        Some p \<Rightarrow> choose_expansion_node fuel (RolloutNode_methods cfg)
                    (solve (RolloutNode_methods cfg) h self (minimax_value (RolloutNode_methods cfg) h self cs)) p
      | None \<Rightarrow> Some (Inr (solve (RolloutNode_methods cfg) h self
                              (minimax_value (RolloutNode_methods cfg) h self cs), None)))"
proof (rule closure_generic[OF assms])
  show "ensure_children (RolloutNode_methods cfg) h self = Inr h"
    using assms by (simp add: children_all_solved_def RolloutNode_methods_def RolloutNode_ensure_children_def)
  show "\<And>v. parent (set_fully_expanded (RolloutNode_methods cfg) v (nodes h self)) = parent (nodes h self)"
    by (simp add: RolloutNode_methods_def RolloutNode_set_fully_expanded_def)
qed

lemma HeuristicNode_closure:
  assumes "children_all_solved (HeuristicNode_methods cfg) h self cs"
  shows "choose_expansion_node (Suc fuel) (HeuristicNode_methods cfg) h self =
     (case parent (nodes h self) of
        Some p \<Rightarrow> choose_expansion_node fuel (HeuristicNode_methods cfg)
                    (solve (HeuristicNode_methods cfg) h self (minimax_value (HeuristicNode_methods cfg) h self cs)) p
      | None \<Rightarrow> Some (Inr (solve (HeuristicNode_methods cfg) h self
                              (minimax_value (HeuristicNode_methods cfg) h self cs), None)))"
proof (rule closure_generic[OF assms])
  show "ensure_children (HeuristicNode_methods cfg) h self = Inr h"
    using assms by (simp add: children_all_solved_def HeuristicNode_methods_def HeuristicNode_ensure_children_def)
  show "\<And>v. parent (set_fully_expanded (HeuristicNode_methods cfg) v (nodes h self)) = parent (nodes h self)"
    by (simp add: HeuristicNode_methods_def HeuristicNode_set_fully_expanded_def)
qed

lemma RolloutNode_solve:
  "fully_expanded (nodes (solve (RolloutNode_methods cfg) h self v) self) \<and>
   get_evaluation (RolloutNode_methods cfg) (nodes (solve (RolloutNode_methods cfg) h self v) self) = Inr v"
  by (simp add: solve_def modify_def RolloutNode_methods_def RolloutNode_set_fully_expanded_def
      RolloutNode_get_evaluation_def)

lemma HeuristicNode_solve:
  "fully_expanded (nodes (solve (HeuristicNode_methods cfg) h self v) self) \<and>
   get_evaluation (HeuristicNode_methods cfg) (nodes (solve (HeuristicNode_methods cfg) h self v) self) = Inr v"
  by (simp add: solve_def modify_def HeuristicNode_methods_def HeuristicNode_set_fully_expanded_def
      HeuristicNode_get_evaluation_def)

text \<open>
  C4. If a node is not solved, has been visited and has children, all of them fully
  expanded with values among -1, 0, 1, then one call of
  \<^verbatim>\<open>choose_expansion_node\<close> on it marks it fully expanded with the largest
  (maximizing) or smallest (minimizing) value of its children and continues as the call
  on the parent in the updated heap; at the root it returns \<^verbatim>\<open>None\<close>. This
  holds for rollout nodes and for heuristic nodes.
\<close>

theorem C4_proof_closure:
  "(children_all_solved (RolloutNode_methods cr) hr self cs \<longrightarrow>
      (let M = RolloutNode_methods cr; v = minimax_value M hr self cs; h2 = solve M hr self v in
       fully_expanded (nodes h2 self) \<and> get_evaluation M (nodes h2 self) = Inr v \<and>
       choose_expansion_node (Suc fuel) M hr self =
         (case parent (nodes hr self) of
            Some p \<Rightarrow> choose_expansion_node fuel M h2 p
          | None \<Rightarrow> Some (Inr (h2, None))))) \<and>
   (children_all_solved (HeuristicNode_methods ch) hh self' cs' \<longrightarrow>
      (let M = HeuristicNode_methods ch; v = minimax_value M hh self' cs'; h2 = solve M hh self' v in
       fully_expanded (nodes h2 self') \<and> get_evaluation M (nodes h2 self') = Inr v \<and>
       choose_expansion_node (Suc fuel') M hh self' =
         (case parent (nodes hh self') of
            Some p \<Rightarrow> choose_expansion_node fuel' M h2 p
          | None \<Rightarrow> Some (Inr (h2, None)))))"
  using RolloutNode_closure[of cr hr self cs fuel] HeuristicNode_closure[of ch hh self' cs' fuel']
    RolloutNode_solve[of cr hr self] HeuristicNode_solve[of ch hh self']
  by (simp add: Let_def)

theorem C4_proof_closure_witness:
  "children_all_solved (RolloutNode_methods tiny_cfg) closure_heap_rollout 0 [1, 2] \<and>
   minimax_value (RolloutNode_methods tiny_cfg) closure_heap_rollout 0 [1, 2] = 0 \<and>
   choose_expansion_node (Suc 0) (RolloutNode_methods tiny_cfg) closure_heap_rollout 0 =
     Some (Inr (solve (RolloutNode_methods tiny_cfg) closure_heap_rollout 0 0, None)) \<and>
   children_all_solved (HeuristicNode_methods tiny_cfg) closure_heap_heuristic 0 [1, 2] \<and>
   minimax_value (HeuristicNode_methods tiny_cfg) closure_heap_heuristic 0 [1, 2] = 0 \<and>
   choose_expansion_node (Suc 0) (HeuristicNode_methods tiny_cfg) closure_heap_heuristic 0 =
     Some (Inr (solve (HeuristicNode_methods tiny_cfg) closure_heap_heuristic 0 0, None))"
proof -
  have r: "children_all_solved (RolloutNode_methods tiny_cfg) closure_heap_rollout 0 [1, 2]"
    by (simp add: children_all_solved_def closure_heap_rollout_def ex_defs)
  have h: "children_all_solved (HeuristicNode_methods tiny_cfg) closure_heap_heuristic 0 [1, 2]"
    by (simp add: children_all_solved_def closure_heap_heuristic_def ex_defs)
  have vr: "minimax_value (RolloutNode_methods tiny_cfg) closure_heap_rollout 0 [1, 2] = 0"
    by (simp add: minimax_value_def value_of_def closure_heap_rollout_def ex_defs)
  have vh: "minimax_value (HeuristicNode_methods tiny_cfg) closure_heap_heuristic 0 [1, 2] = 0"
    by (simp add: minimax_value_def value_of_def closure_heap_heuristic_def ex_defs)
  have pr: "parent (nodes closure_heap_rollout 0) = None"
    by (simp add: closure_heap_rollout_def ex_defs)
  have ph: "parent (nodes closure_heap_heuristic 0) = None"
    by (simp add: closure_heap_heuristic_def ex_defs)
  from C4_proof_closure[of tiny_cfg closure_heap_rollout 0 "[1, 2]" 0 tiny_cfg closure_heap_heuristic 0 "[1, 2]" 0]
    r h vr vh pr ph
  show ?thesis by (simp add: Let_def)
qed

section \<open>RolloutNode: no division by zero during selection\<close>

lemma sequence_Inl: "sequence xs = Inl e \<Longrightarrow> Inl e \<in> set xs"
proof (induction xs)
  case Nil
  then show ?case by simp
next
  case (Cons x xs)
  then show ?case by (cases x) (auto split: sum.splits)
qed

lemma RolloutNode_puct_unvisited:
  assumes "children (nodes h self) = Some cs" "i < length cs" "rollout_count (nodes h (cs ! i)) = 0"
  shows "RolloutNode_get_puct_heuristic_for_child cfg h self i = Inr PInf"
  using assms by (simp add: RolloutNode_get_puct_heuristic_for_child_def py_index_def)

lemma RolloutNode_scan_unvisited:
  assumes "children (nodes h self) = Some cs" "i < length cs" "rollout_count (nodes h (cs ! i)) = 0"
    "\<not> fully_expanded (nodes h (cs ! i))"
  shows "scan_children (RolloutNode_methods cfg) h self i (drop i cs) best bc = Inr (Infinite_puct (cs ! i))"
proof -
  have "drop i cs = cs ! i # drop (Suc i) cs" using assms(2) by (simp add: Cons_nth_drop_Suc)
  then show ?thesis using assms RolloutNode_puct_unvisited[OF assms(1-3), of cfg]
    by (simp add: RolloutNode_methods_def)
qed

lemma RolloutNode_evaluation_visited:
  "fully_expanded n \<or> rollout_count n > 0 \<Longrightarrow> RolloutNode_get_evaluation n \<noteq> Inl ZeroDivisionError"
  by (auto simp: RolloutNode_get_evaluation_def zero_enat_def split: enat.splits)

lemma RolloutNode_scan_no_zero_division:
  assumes "children (nodes h self) = Some cs"
  shows "i \<le> length cs \<Longrightarrow>
     scan_children (RolloutNode_methods cfg) h self i (drop i cs) best bc \<noteq> Inl ZeroDivisionError \<and>
     (\<forall>r. scan_children (RolloutNode_methods cfg) h self i (drop i cs) best bc = Inr (Loop_end r) \<longrightarrow>
        (\<forall>c\<in>set (drop i cs). RolloutNode_get_evaluation (nodes h c) \<noteq> Inl ZeroDivisionError))"
proof (induction "length cs - i" arbitrary: i best bc)
  case 0
  then show ?case by simp
next
  case (Suc n)
  then have lt: "i < length cs" by simp
  have d: "drop i cs = cs ! i # drop (Suc i) cs" using lt by (simp add: Cons_nth_drop_Suc)
  have IH: "\<And>best bc. scan_children (RolloutNode_methods cfg) h self (Suc i) (drop (Suc i) cs) best bc \<noteq> Inl ZeroDivisionError \<and>
     (\<forall>r. scan_children (RolloutNode_methods cfg) h self (Suc i) (drop (Suc i) cs) best bc = Inr (Loop_end r) \<longrightarrow>
        (\<forall>c\<in>set (drop (Suc i) cs). RolloutNode_get_evaluation (nodes h c) \<noteq> Inl ZeroDivisionError))"
    using Suc.hyps(1)[of "Suc i"] Suc.hyps(2) lt by simp
  let ?child = "nodes h (cs ! i)"
  show ?case
  proof (cases "fully_expanded ?child")
    case True
    then have ev: "RolloutNode_get_evaluation ?child = Inr (rollout_sum ?child)"
      by (simp add: RolloutNode_get_evaluation_def)
    show ?thesis using True ev IH
      by (simp add: d RolloutNode_methods_def)
  next
    case False
    show ?thesis
    proof (cases "rollout_count ?child > 0")
      case pos: True
      then obtain v where ev: "RolloutNode_get_evaluation ?child = Inr v"
        using False by (cases "rollout_count ?child") (auto simp: RolloutNode_get_evaluation_def zero_enat_def)
      show ?thesis using False pos ev IH assms lt
        by (simp add: d RolloutNode_methods_def RolloutNode_get_puct_heuristic_for_child_def py_index_def Let_def)
    next
      case zero: False
      then show ?thesis using False assms lt
        by (simp add: d RolloutNode_methods_def RolloutNode_get_puct_heuristic_for_child_def py_index_def)
    qed
  qed
qed

lemma RolloutNode_minimax_no_zero_division:
  assumes "\<forall>c\<in>set cs. RolloutNode_get_evaluation (nodes h c) \<noteq> Inl ZeroDivisionError"
  shows "minimax_of_children (RolloutNode_methods cfg) h m cs \<noteq> Inl ZeroDivisionError"
proof
  assume a: "minimax_of_children (RolloutNode_methods cfg) h m cs = Inl ZeroDivisionError"
  show False
  proof (cases "sequence (map (\<lambda>child. RolloutNode_get_evaluation (nodes h child)) cs)")
    case (Inl e)
    then have "e = ZeroDivisionError" using a by (simp add: minimax_of_children_def RolloutNode_methods_def)
    then show False using sequence_Inl[OF Inl] assms by auto
  next
    case (Inr evs)
    then show False using a
      by (cases evs) (auto simp: minimax_of_children_def RolloutNode_methods_def split: if_splits)
  qed
qed

lemma RolloutNode_selection_no_zero_division:
  "choose_expansion_node fuel (RolloutNode_methods cfg) h self \<noteq> Some (Inl ZeroDivisionError)"
proof (induction fuel arbitrary: h self)
  case 0
  then show ?case by simp
next
  case (Suc fuel)
  let ?R = "RolloutNode_methods cfg"
  obtain h1 where h1: "ensure_children ?R h self = Inr h1"
    by (cases "children (nodes h self)") (simp_all add: RolloutNode_methods_def RolloutNode_ensure_children_def)
  show ?case
  proof (cases "children (nodes h1 self)")
    case None
    then show ?thesis using h1 by simp
  next
    case (Some cs)
    note scan = RolloutNode_scan_no_zero_division[OF Some, of 0 cfg "if is_maximizing (nodes h1 self) then NInf else PInf" None]
    show ?thesis
    proof (cases "scan_children ?R h1 self 0 cs (if is_maximizing (nodes h1 self) then NInf else PInf) None")
      case (Inl e)
      then show ?thesis using h1 Some scan by auto
    next
      case (Inr r)
      show ?thesis
      proof (cases r)
        case Optimal_child
        then show ?thesis using h1 Some Inr Suc.IH by (simp add: Let_def split: option.split)
      next
        case (Infinite_puct c)
        then show ?thesis using h1 Some Inr by simp
      next
        case (Loop_end bc)
        show ?thesis
        proof (cases bc)
          case None
          have "\<forall>c\<in>set cs. RolloutNode_get_evaluation (nodes h1 c) \<noteq> Inl ZeroDivisionError"
            using scan Inr Loop_end by simp
          from RolloutNode_minimax_no_zero_division[OF this]
          show ?thesis using h1 Some Inr Loop_end None Suc.IH
            by (auto simp: Let_def split: option.split sum.split)
        next
          case (Some b)
          then show ?thesis using h1 \<open>children (nodes h1 self) = Some cs\<close> Inr Loop_end Suc.IH by simp
        qed
      qed
    qed
  qed
qed

text \<open>
  C10. For rollout nodes: a child with \<^verbatim>\<open>rollout_count\<close> 0 gets the
  exploration score \<^verbatim>\<open>np.inf\<close>; when the loop of
  \<^verbatim>\<open>choose_expansion_node\<close> reaches such a child that is not fully expanded,
  it returns the child at once, before reading its evaluation; and no call of
  \<^verbatim>\<open>choose_expansion_node\<close>, on any heap and for any number of recursive
  calls, raises ZeroDivisionError, the exception of the division
  \<^verbatim>\<open>rollout_sum / rollout_count\<close> by the count 0.
\<close>

theorem C10_no_division_by_zero:
  "(children (nodes h self) = Some cs \<and> i < length cs \<and> rollout_count (nodes h (cs ! i)) = 0 \<longrightarrow>
      RolloutNode_get_puct_heuristic_for_child cfg h self i = Inr PInf \<and>
      (\<not> fully_expanded (nodes h (cs ! i)) \<longrightarrow>
         scan_children (RolloutNode_methods cfg) h self i (drop i cs) best bc =
           Inr (Infinite_puct (cs ! i)))) \<and>
   choose_expansion_node fuel (RolloutNode_methods cfg) h' self' \<noteq> Some (Inl ZeroDivisionError)"
  using RolloutNode_puct_unvisited[of h self cs i cfg]
    RolloutNode_scan_unvisited[of h self cs i cfg best bc]
    RolloutNode_selection_no_zero_division[of fuel cfg h' self']
  by blast

theorem C10_no_division_by_zero_witness:
  "RolloutNode_get_puct_heuristic_for_child tiny_cfg unvisited_heap 0 1 = Inr PInf \<and>
   scan_children (RolloutNode_methods tiny_cfg) unvisited_heap 0 1 [2] NInf None = Inr (Infinite_puct 2) \<and>
   choose_expansion_node (Suc 0) (RolloutNode_methods tiny_cfg) unvisited_heap 0 =
     Some (Inr (unvisited_heap, Some 2))"
proof -
  have pre: "children (nodes unvisited_heap 0) = Some [1, 2] \<and> (1::nat) < length [1::nat, 2] \<and>
      rollout_count (nodes unvisited_heap ([1, 2] ! 1)) = 0"
    by (simp add: unvisited_heap_def ex_defs)
  have open_child: "\<not> fully_expanded (nodes unvisited_heap ([1, 2] ! 1))"
    by (simp add: unvisited_heap_def ex_defs)
  have run: "choose_expansion_node (Suc 0) (RolloutNode_methods tiny_cfg) unvisited_heap 0 =
      Some (Inr (unvisited_heap, Some 2))"
    by (simp add: unvisited_heap_def ex_defs RolloutNode_ensure_children_def
        RolloutNode_get_puct_heuristic_for_child_def py_index_def)
  from C10_no_division_by_zero[of unvisited_heap 0 "[1, 2]" 1 tiny_cfg NInf None "Suc 0" unvisited_heap 0]
    pre open_child run
  show ?thesis by simp
qed

section \<open>HeuristicNode.merge\<close>

lemma merge_each_no_return:
  assumes "\<And>h n cl h'. merge h n cl \<noteq> Some (Inr h')"
  shows "merge_each merge h i cs clones = Some (Inr h') \<Longrightarrow> cs = [] \<and> h' = h"
  using assms by (cases cs) (auto split: sum.splits option.splits)

lemma merge_children_clones_no_return:
  assumes "\<And>h n cl h'. merge h n cl \<noteq> Some (Inr h')"
    and "merge_children_clones merge h self clones = Some (Inr h1)"
  shows "children (nodes h1 self) = None \<or> children (nodes h1 self) = Some []"
  using assms(2) merge_each_no_return[of merge, OF assms(1)]
  by (fastforce simp: merge_children_clones_def modify_def split: option.splits prod.splits)

text \<open>
  C7. The claim: \<^verbatim>\<open>HeuristicNode.merge\<close> merges the children and then sets
  the node's value and expansion count from its children, for every node it is invoked on.
  The code raises instead on a node without children: \<^verbatim>\<open>merge_children_clones\<close>
  returns with \<^verbatim>\<open>self.children\<close> still \<^verbatim>\<open>None\<close>, and the list
  comprehension over \<^verbatim>\<open>self.children\<close> raises TypeError. The recursion reaches
  such a node in every tree, so the merge of a node with children raises too. Evaluated
  here: a leaf merged with no clone, a leaf merged with a clone that is a leaf, and a node
  with two children merged with no clone.
\<close>

theorem C7_heuristic_merge_raises:
  "HeuristicNode_merge (Suc fuel) heuristic_leaf_heap 0 [] = Some (Inl TypeError) \<and>
   HeuristicNode_merge (Suc fuel) heuristic_leaf_heap 0 [1] = Some (Inl TypeError) \<and>
   HeuristicNode_merge (Suc (Suc fuel)) closure_heap_heuristic 0 [] = Some (Inl TypeError)"
  by (simp add: merge_children_clones_def heuristic_leaf_heap_def closure_heap_heuristic_def ex_defs
      clone_children_at_def)

text \<open>
  C8. The claim: merge is idempotent for both node variants. For heuristic nodes there is
  no result of a first merge to compare with: no call of \<^verbatim>\<open>HeuristicNode.merge\<close>
  returns normally, on any heap, for any node and any list of clones (the calls evaluated
  for C7 raise TypeError).
\<close>

theorem C8_heuristic_merge_never_returns:
  "HeuristicNode_merge fuel h self clones \<noteq> Some (Inr h')"
proof (induction fuel arbitrary: h self clones h')
  case 0
  then show ?case by simp
next
  case (Suc fuel)
  show ?case
  proof
    assume a: "HeuristicNode_merge (Suc fuel) h self clones = Some (Inr h')"
    then obtain h1 where h1: "merge_children_clones (HeuristicNode_merge fuel) h self clones = Some (Inr h1)"
      by (auto split: option.splits sum.splits)
    from merge_children_clones_no_return[of "HeuristicNode_merge fuel", OF Suc.IH h1]
    have "children (nodes h1 self) = None \<or> children (nodes h1 self) = Some []" .
    then show False using a h1
      by (auto simp: critical_value_of_def split: option.splits sum.splits if_splits)
  qed
qed

section \<open>expand on nodes that are solved\<close>

lemma HeuristicNode_expand_raises:
  "children (nodes h self) \<noteq> None \<or> fully_expanded (nodes h self) \<Longrightarrow>
   \<exists>msg. HeuristicNode_expand fuel cfg h self = Some (Inl (Exception msg))"
  by (auto simp: HeuristicNode_expand_def)

lemma HeuristicNode_terminal_fully_expanded:
  "is_over (GameClass cfg) pos \<Longrightarrow> fully_expanded (HeuristicNode_init cfg pos par r)"
  by (simp add: HeuristicNode_init_def)

lemma RolloutNode_expand_never_raises: "RolloutNode_expand fuel cfg outcome h self \<noteq> Some (Inl e)"
  by (auto simp: RolloutNode_expand_def)

lemma solved_root_heap_reached:
  "choose_expansion_node (Suc 0) (RolloutNode_methods tiny_cfg) root_heap 0 = Some (Inr (root_heap, Some 0)) \<and>
   (\<exists>h1. RolloutNode_expand (Suc (Suc 0)) tiny_cfg (\<lambda>i. 1) root_heap 0 = Some (Inr h1) \<and>
      choose_expansion_node (Suc 0) (RolloutNode_methods tiny_cfg) h1 0 = Some (Inr (solved_root_heap, None)))"
proof -
  let ?h1 = "modify 0 (\<lambda>n. n\<lparr>rollout_sum := rollout_sum n + 1, rollout_count := rollout_count n + enat 1\<rparr>) root_heap"
  have a: "choose_expansion_node (Suc 0) (RolloutNode_methods tiny_cfg) root_heap 0 = Some (Inr (root_heap, Some 0))"
    by (simp add: root_heap_def ex_defs)
  have b: "RolloutNode_expand (Suc (Suc 0)) tiny_cfg (\<lambda>i. 1) root_heap 0 = Some (Inr ?h1)"
    by (simp add: RolloutNode_expand_def root_heap_def ex_defs modify_def)
  have c: "choose_expansion_node (Suc 0) (RolloutNode_methods tiny_cfg) ?h1 0 = Some (Inr (solved_root_heap, None))"
    by (simp add: root_heap_def ex_defs modify_def RolloutNode_ensure_children_def allocate_def
        RolloutNode_set_fully_expanded_def solved_root_heap_def Let_def fun_eq_iff)
  show ?thesis using a b c by blast
qed

text \<open>
  C9. The claim: \<^verbatim>\<open>expand()\<close> on a fully expanded or terminal node raises, for
  both variants. \<^verbatim>\<open>HeuristicNode.expand\<close> does
  (\<open>HeuristicNode_expand_raises\<close>); \<^verbatim>\<open>RolloutNode.expand\<close> has no such
  check and never raises (\<open>RolloutNode_expand_never_raises\<close>). Evaluated here: the node
  at address 1 of \<open>solved_root_heap\<close> is terminal and fully expanded with the value 1;
  \<^verbatim>\<open>expand()\<close> on it returns normally and leaves it with the value 2.
\<close>

theorem C9_rollout_expand_terminal:
  "is_over (GameClass tiny_cfg) (position (nodes solved_root_heap 1)) \<and>
   fully_expanded (nodes solved_root_heap 1) \<and>
   RolloutNode_get_evaluation (nodes solved_root_heap 1) = Inr 1 \<and>
   map_option (map_sum id (\<lambda>h. (fully_expanded (nodes h 1), RolloutNode_get_evaluation (nodes h 1))))
     (RolloutNode_expand (Suc (Suc (Suc 0))) tiny_cfg (\<lambda>i. 1) solved_root_heap 1) =
       Some (Inr (True, Inr 2))"
  by (simp add: RolloutNode_expand_def solved_root_heap_def modify_def ex_defs)

section \<open>choose_best_node: the weights of the children\<close>

lemma sequence_Inr_nth:
  "sequence rs = Inr xs \<Longrightarrow> length xs = length rs \<and> (\<forall>i < length rs. rs ! i = Inr (xs ! i))"
proof (induction rs arbitrary: xs)
  case Nil
  then show ?case by simp
next
  case (Cons r rs)
  then show ?case
    by (cases r) (auto split: sum.splits simp: nth_Cons split: nat.splits)
qed

text \<open>
  C2, as amended. For a node that is not fully expanded, the list of weights
  \<^verbatim>\<open>choose_best_node\<close> builds before normalizing has one entry per child, in
  the order of the children: the child's own expansion count, not scaled, for a child that
  is not fully expanded; 0 for a fully expanded child whose value is the losing outcome for
  the mover; and for every other fully expanded child the expansion count of the node
  itself (not of the child) times \<open>1 - w\<close>, where \<open>w = (evaluation * sign + 1) / 2\<close> is
  the winning chance of the node.
\<close>

theorem C2_weights:
  assumes "\<not> fully_expanded (nodes h self)" "children (nodes h self) = Some cs"
    "unsolved_distribution M h self = Inr ws"
  shows "length ws = length cs \<and>
     (\<forall>i < length cs.
        (\<not> fully_expanded (nodes h (cs ! i)) \<longrightarrow>
           ws ! i = np_of_count (count_expansions M (nodes h (cs ! i)))) \<and>
        (fully_expanded (nodes h (cs ! i)) \<and>
         get_evaluation M (nodes h (cs ! i)) = Inr (- optimal_value (nodes h self)) \<longrightarrow>
           ws ! i = Fin 0) \<and>
        (fully_expanded (nodes h (cs ! i)) \<and>
         get_evaluation M (nodes h (cs ! i)) \<noteq> Inr (- optimal_value (nodes h self)) \<longrightarrow>
           ws ! i = np_mul (np_of_count (count_expansions M (nodes h self)))
                      (Fin (1 - (value_of M (nodes h self) * optimal_value (nodes h self) + 1) / 2))))"
proof -
  have seq: "sequence (map (child_weight M h self) cs) = Inr ws"
    using assms by (simp add: unsolved_distribution_def)
  from sequence_Inr_nth[OF seq]
  have len: "length ws = length cs"
    and nth: "\<And>i. i < length cs \<Longrightarrow> child_weight M h self (cs ! i) = Inr (ws ! i)"
    by auto
  have "\<And>i. i < length cs \<Longrightarrow>
        (\<not> fully_expanded (nodes h (cs ! i)) \<longrightarrow>
           ws ! i = np_of_count (count_expansions M (nodes h (cs ! i)))) \<and>
        (fully_expanded (nodes h (cs ! i)) \<and>
         get_evaluation M (nodes h (cs ! i)) = Inr (- optimal_value (nodes h self)) \<longrightarrow>
           ws ! i = Fin 0) \<and>
        (fully_expanded (nodes h (cs ! i)) \<and>
         get_evaluation M (nodes h (cs ! i)) \<noteq> Inr (- optimal_value (nodes h self)) \<longrightarrow>
           ws ! i = np_mul (np_of_count (count_expansions M (nodes h self)))
                      (Fin (1 - (value_of M (nodes h self) * optimal_value (nodes h self) + 1) / 2)))"
  proof -
    fix i assume "i < length cs"
    from nth[OF this] show "?thesis i"
      by (cases "get_evaluation M (nodes h (cs ! i))"; cases "get_evaluation M (nodes h self)")
         (simp_all add: child_weight_def value_of_def Let_def add_divide_distrib split: if_splits)
  qed
  then show ?thesis using len by blast
qed

text \<open>
  The claim as stated fails on \<open>best_move_heap\<close>: the code gives the drawn child the
  weight 1 (the node's count 4 times 1 - 0.75) and the unsolved child its count 2; the
  claimed weights are the drawn child's own count, which is infinite, and 2 times 0.75.
\<close>

theorem C2_counterexample:
  "map (child_weight (RolloutNode_methods tiny_cfg) best_move_heap 0) [1, 2] = [Inr (Fin 1), Inr (Fin 2)] \<and>
   map (claimed_child_weight (RolloutNode_methods tiny_cfg) best_move_heap 0) [1, 2] = [PInf, Fin 1.5]"
  by (simp add: child_weight_def claimed_child_weight_def value_of_def best_move_heap_def ex_defs inf_signed_def)

theorem C2_weights_witness:
  "\<not> fully_expanded (nodes best_move_heap 0) \<and> children (nodes best_move_heap 0) = Some [1, 2] \<and>
   unsolved_distribution (RolloutNode_methods tiny_cfg) best_move_heap 0 = Inr [Fin 1, Fin 2] \<and>
   np_mul (np_of_count (count_expansions (RolloutNode_methods tiny_cfg) (nodes best_move_heap 0)))
     (Fin (1 - (value_of (RolloutNode_methods tiny_cfg) (nodes best_move_heap 0) *
                optimal_value (nodes best_move_heap 0) + 1) / 2)) = Fin 1 \<and>
   np_of_count (count_expansions (RolloutNode_methods tiny_cfg) (nodes best_move_heap 2)) = Fin 2"
proof -
  have a: "\<not> fully_expanded (nodes best_move_heap 0)" "children (nodes best_move_heap 0) = Some [1, 2]"
    by (simp_all add: best_move_heap_def ex_defs)
  have b: "unsolved_distribution (RolloutNode_methods tiny_cfg) best_move_heap 0 = Inr [Fin 1, Fin 2]"
    by (simp add: unsolved_distribution_def child_weight_def best_move_heap_def ex_defs)
  have c: "fully_expanded (nodes best_move_heap 1)" "\<not> fully_expanded (nodes best_move_heap 2)"
    "get_evaluation (RolloutNode_methods tiny_cfg) (nodes best_move_heap 1) \<noteq> Inr (- optimal_value (nodes best_move_heap 0))"
    by (simp_all add: best_move_heap_def ex_defs)
  note w = C2_weights[OF a b, THEN conjunct2, rule_format]
  from w[of 0] w[of 1]
  have "[Fin 1, Fin 2] ! 0 = np_mul (np_of_count (count_expansions (RolloutNode_methods tiny_cfg) (nodes best_move_heap 0)))
     (Fin (1 - (value_of (RolloutNode_methods tiny_cfg) (nodes best_move_heap 0) *
                optimal_value (nodes best_move_heap 0) + 1) / 2))"
    and "[Fin 1, Fin 2] ! 1 = np_of_count (count_expansions (RolloutNode_methods tiny_cfg) (nodes best_move_heap ([1, 2] ! 1)))"
    using c by simp_all
  then show ?thesis using a b by simp
qed

section \<open>HeuristicNode.expand: the backup\<close>

lemma chain_unique: "chain par node as \<Longrightarrow> chain par node bs \<Longrightarrow> as = bs"
proof (induction as arbitrary: node bs)
  case Nil
  then show ?case by (cases node; cases bs) auto
next
  case (Cons a as)
  then show ?case by (cases node; cases bs) auto
qed

lemma chain_suffix: "chain par node as \<Longrightarrow> k < length as \<Longrightarrow> chain par (par (as ! k)) (drop (Suc k) as)"
proof (induction as arbitrary: node k)
  case Nil
  then show ?case by simp
next
  case (Cons a as)
  then obtain n where n: "node = Some n" "a = n" "chain par (par n) as"
    by (cases node) auto
  show ?case
  proof (cases k)
    case 0
    then show ?thesis using n by simp
  next
    case (Suc j)
    then show ?thesis using Cons.IH[OF n(3), of j] Cons.prems(2) by simp
  qed
qed

lemma chain_distinct: "chain par node as \<Longrightarrow> distinct as"
proof (induction as arbitrary: node)
  case Nil
  then show ?case by simp
next
  case (Cons a as)
  then obtain n where n: "node = Some n" "a = n" "chain par (par n) as"
    by (cases node) auto
  have "a \<notin> set as"
  proof
    assume "a \<in> set as"
    then obtain k where k: "k < length as" "as ! k = a" by (auto simp: in_set_conv_nth)
    from chain_suffix[OF n(3) k(1)] have "chain par (par a) (drop (Suc k) as)" using k by simp
    with n have "as = drop (Suc k) as" using chain_unique by blast
    then have "length as = length as - Suc k" by (metis length_drop)
    with k show False by simp
  qed
  then show ?case using Cons.IH[OF n(3)] by simp
qed

lemma chain_cong: "(\<And>a. a \<in> set as \<Longrightarrow> par a = par' a) \<Longrightarrow> chain par node as = chain par' node as"
proof (induction as arbitrary: node)
  case Nil
  then show ?case by (cases node) auto
next
  case (Cons a as)
  then show ?case by (cases node) auto
qed

lemma backup_expansions_chain:
  "chain (parent_of h) node as \<Longrightarrow> length as \<le> fuel \<Longrightarrow>
   \<exists>h'. backup_expansions fuel h node = Some h' \<and> next_id h' = next_id h \<and>
        (\<forall>i. nodes h' i = (if i \<in> set as then bump (nodes h i) else nodes h i))"
proof (induction as arbitrary: h node fuel)
  case Nil
  then show ?case by (cases node) auto
next
  case (Cons a as)
  then obtain n where n: "node = Some n" "a = n" "chain (parent_of h) (parent_of h n) as"
    by (cases node) auto
  obtain f where f: "fuel = Suc f" "length as \<le> f" using Cons.prems(2) by (cases fuel) auto
  let ?h1 = "modify n (\<lambda>x. x\<lparr>expansions := expansions x + 1\<rparr>) h"
  have par: "parent_of ?h1 = parent_of h" by (auto simp: parent_of_def modify_def fun_eq_iff)
  have d: "a \<notin> set as" using chain_distinct[OF Cons.prems(1)] by simp
  from Cons.IH[of ?h1 "parent_of h n" f] n(3) f(2) par
  obtain h' where h': "backup_expansions f ?h1 (parent_of h n) = Some h'" "next_id h' = next_id ?h1"
    "\<forall>i. nodes h' i = (if i \<in> set as then bump (nodes ?h1 i) else nodes ?h1 i)"
    by auto
  have "backup_expansions fuel h node = Some h'" using h'(1) n f by (simp add: parent_of_def)
  moreover have "next_id h' = next_id h" using h'(2) by (simp add: modify_def)
  moreover have "\<forall>i. nodes h' i = (if i \<in> set (a # as) then bump (nodes h i) else nodes h i)"
    using h'(3) d n(2) by (auto simp: modify_def bump_def)
  ultimately show ?case by blast
qed

lemma backup_heuristic_chain:
  "chain (parent_of h) node as \<Longrightarrow> length as \<le> fuel \<Longrightarrow>
   \<exists>h' node'. backup_heuristic fuel cv h node = Some (h', node') \<and> next_id h' = next_id h \<and>
      parent_of h' = parent_of h \<and>
      chain (parent_of h) node' (drop (Suc (length (takeWhile (\<lambda>a. beats cv (nodes h a)) as))) as) \<and>
      (\<forall>i. nodes h' i =
         (if i \<in> set (takeWhile (\<lambda>a. beats cv (nodes h a)) as)
          then (nodes h i)\<lparr>heuristic := cv, expansions := expansions (nodes h i) + 1\<rparr>
          else if i \<in> set (take 1 (dropWhile (\<lambda>a. beats cv (nodes h a)) as)) then bump (nodes h i)
          else nodes h i))"
proof (induction as arbitrary: h node fuel)
  case Nil
  then show ?case by (cases node) auto
next
  case (Cons a as)
  then obtain n where n: "node = Some n" "a = n" "chain (parent_of h) (parent_of h n) as"
    by (cases node) auto
  obtain f where f: "fuel = Suc f" "length as \<le> f" using Cons.prems(2) by (cases fuel) auto
  have d: "a \<notin> set as" using chain_distinct[OF Cons.prems(1)] by simp
  show ?case
  proof (cases "beats cv (nodes h a)")
    case False
    let ?h1 = "modify n (\<lambda>x. x\<lparr>expansions := expansions x + 1\<rparr>) h"
    have "backup_heuristic fuel cv h node = Some (?h1, parent_of h n)"
      using False n f by (simp add: parent_of_def)
    moreover have "parent_of ?h1 = parent_of h" by (auto simp: parent_of_def modify_def fun_eq_iff)
    ultimately show ?thesis using False n
      by (auto simp: modify_def bump_def)
  next
    case True
    let ?h1 = "modify n (\<lambda>x. x\<lparr>heuristic := cv, expansions := expansions x + 1\<rparr>) h"
    have par: "parent_of ?h1 = parent_of h" by (auto simp: parent_of_def modify_def fun_eq_iff)
    have same: "\<And>x. x \<in> set as \<Longrightarrow> nodes ?h1 x = nodes h x" using d n(2) by (auto simp: modify_def)
    have tw: "takeWhile (\<lambda>a. beats cv (nodes ?h1 a)) as = takeWhile (\<lambda>a. beats cv (nodes h a)) as"
      by (rule takeWhile_cong) (simp_all add: same)
    have dw: "dropWhile (\<lambda>a. beats cv (nodes ?h1 a)) as = dropWhile (\<lambda>a. beats cv (nodes h a)) as"
      by (rule dropWhile_cong) (simp_all add: same)
    from Cons.IH[of ?h1 "parent_of h n" f] n(3) f(2) par
    obtain h' node' where h': "backup_heuristic f cv ?h1 (parent_of h n) = Some (h', node')"
      "next_id h' = next_id ?h1" "parent_of h' = parent_of ?h1"
      "chain (parent_of ?h1) node' (drop (Suc (length (takeWhile (\<lambda>a. beats cv (nodes ?h1 a)) as))) as)"
      "\<forall>i. nodes h' i =
         (if i \<in> set (takeWhile (\<lambda>a. beats cv (nodes ?h1 a)) as)
          then (nodes ?h1 i)\<lparr>heuristic := cv, expansions := expansions (nodes ?h1 i) + 1\<rparr>
          else if i \<in> set (take 1 (dropWhile (\<lambda>a. beats cv (nodes ?h1 a)) as)) then bump (nodes ?h1 i)
          else nodes ?h1 i)"
      by auto
    note h5 = h'(5)[unfolded tw dw]
    note h4 = h'(4)[unfolded tw par]
    have run: "backup_heuristic fuel cv h node = Some (h', node')"
      using True h'(1) n f by (simp add: parent_of_def)
    have notin: "a \<notin> set (takeWhile (\<lambda>a. beats cv (nodes h a)) as)"
      "a \<notin> set (take 1 (dropWhile (\<lambda>a. beats cv (nodes h a)) as))"
      using d by (auto dest: set_takeWhileD in_set_takeD set_dropWhileD)
    have nodes: "\<forall>i. nodes h' i =
         (if i \<in> set (takeWhile (\<lambda>a. beats cv (nodes h a)) (a # as))
          then (nodes h i)\<lparr>heuristic := cv, expansions := expansions (nodes h i) + 1\<rparr>
          else if i \<in> set (take 1 (dropWhile (\<lambda>a. beats cv (nodes h a)) (a # as))) then bump (nodes h i)
          else nodes h i)"
    proof
      fix i
      show "nodes h' i =
         (if i \<in> set (takeWhile (\<lambda>a. beats cv (nodes h a)) (a # as))
          then (nodes h i)\<lparr>heuristic := cv, expansions := expansions (nodes h i) + 1\<rparr>
          else if i \<in> set (take 1 (dropWhile (\<lambda>a. beats cv (nodes h a)) (a # as))) then bump (nodes h i)
          else nodes h i)"
      proof (cases "i = a")
        case True
        then show ?thesis using h5 notin \<open>beats cv (nodes h a)\<close> n(2)
          by (simp add: modify_def)
      next
        case False
        then show ?thesis using h5 \<open>beats cv (nodes h a)\<close> n(2)
          by (simp add: modify_def)
      qed
    qed
    have "next_id h' = next_id h" using h'(2) by (simp add: modify_def)
    moreover have "parent_of h' = parent_of h" using h'(3) par by simp
    moreover have "chain (parent_of h) node'
        (drop (Suc (length (takeWhile (\<lambda>a. beats cv (nodes h a)) (a # as)))) (a # as))"
      using h4 True by simp
    ultimately show ?thesis using run nodes by blast
  qed
qed

lemma take1_dropWhile_drop:
  "set (dropWhile P xs) = set (take 1 (dropWhile P xs)) \<union> set (drop (Suc (length (takeWhile P xs))) xs)"
proof -
  have e: "drop (Suc (length (takeWhile P xs))) xs = drop 1 (dropWhile P xs)"
    by (simp add: dropWhile_eq_drop)
  have "set (take 1 (dropWhile P xs) @ drop 1 (dropWhile P xs)) = set (dropWhile P xs)"
    by (simp only: append_take_drop_id)
  then show ?thesis unfolding e set_append by (rule sym)
qed

lemma distinct_takeWhile_dropWhile:
  assumes "distinct xs"
  shows "set (takeWhile P xs) \<inter> set (dropWhile P xs) = {}"
proof -
  have "distinct (takeWhile P xs @ dropWhile P xs)" using assms by simp
  then show ?thesis unfolding distinct_append by (rule conjunct2[THEN conjunct2])
qed

lemma distinct_take1_drop:
  assumes "distinct xs"
  shows "set (take 1 (dropWhile P xs)) \<inter> set (drop (Suc (length (takeWhile P xs))) xs) = {}"
proof -
  have e: "drop (Suc (length (takeWhile P xs))) xs = drop 1 (dropWhile P xs)"
    by (simp add: dropWhile_eq_drop)
  have "distinct (dropWhile P xs)" using assms by (rule distinct_dropWhile)
  then have "distinct (take 1 (dropWhile P xs) @ drop 1 (dropWhile P xs))"
    by (simp only: append_take_drop_id)
  then have "set (take 1 (dropWhile P xs)) \<inter> set (drop 1 (dropWhile P xs)) = {}"
    unfolding distinct_append by (rule conjunct2[THEN conjunct2])
  then show ?thesis unfolding e .
qed

lemma set_takeWhile_dropWhile: "set xs = set (takeWhile P xs) \<union> set (dropWhile P xs)"
proof -
  have "set (takeWhile P xs @ dropWhile P xs) = set xs" by (simp only: takeWhile_dropWhile_id)
  then show ?thesis unfolding set_append by (rule sym)
qed

text \<open>
  C6. Let \<open>self\<close> be a heuristic node without children that is not fully expanded and
  whose position has moves, and let \<open>as\<close> be its ancestors, from the parent up to the
  root. Then \<^verbatim>\<open>expand()\<close> returns normally. Afterwards the node has one new
  child per move, its value is the largest (maximizing) or smallest (minimizing) value of
  these children, and for the ancestors: the value has been copied to the longest
  initial stretch of \<open>as\<close> in which every ancestor is beaten by it (it is greater than
  the value of a maximizing ancestor, smaller than the value of a minimizing one); every
  ancestor from the first one that is not beaten up to the root keeps its value; and the
  expansion counter of every ancestor has grown by 1.
\<close>

theorem C6_heuristic_expand:
  assumes leaf: "children (nodes h self) = None" and unsolved: "\<not> fully_expanded (nodes h self)"
    and moves: "get_possible_moves (GameClass cfg) (position (nodes h self)) \<noteq> []"
    and anc: "chain (parent_of h) (parent_of h self) as"
    and alloc: "self < next_id h" "\<forall>a\<in>set as. a < next_id h"
    and fuel: "length as \<le> fuel"
  shows "\<exists>h' cs. HeuristicNode_expand fuel cfg h self = Some (Inr h') \<and>
      children (nodes h' self) = Some cs \<and> cs \<noteq> [] \<and>
      cs = [next_id h ..< next_id h + length (get_possible_moves (GameClass cfg) (position (nodes h self)))] \<and>
      (\<forall>c\<in>set cs. nodes h' c = new_child cfg h self c) \<and>
      is_maximizing (nodes h' self) = is_maximizing (nodes h self) \<and>
      heuristic (nodes h' self) = minimax_value (HeuristicNode_methods cfg) h' self cs \<and>
      (\<forall>a\<in>set (takeWhile (\<lambda>a. beats (heuristic (nodes h' self)) (nodes h a)) as).
          heuristic (nodes h' a) = heuristic (nodes h' self)) \<and>
      (\<forall>a\<in>set (dropWhile (\<lambda>a. beats (heuristic (nodes h' self)) (nodes h a)) as).
          heuristic (nodes h' a) = heuristic (nodes h a)) \<and>
      (\<forall>a\<in>set as. expansions (nodes h' a) = expansions (nodes h a) + 1)"
proof -
  define mvs where "mvs = get_possible_moves (GameClass cfg) (position (nodes h self))"
  define cs where "cs = [next_id h ..< next_id h + length mvs]"
  define h1 where "h1 = modify self (\<lambda>n. n\<lparr>expansions := 1\<rparr>)
     (allocate self (\<lambda>move. HeuristicNode_init cfg move (Some self) (Some (network_call cfg move))) mvs h)"
  have ens: "HeuristicNode_ensure_children cfg h self = Inr h1"
    using leaf moves by (simp add: HeuristicNode_ensure_children_def Let_def h1_def mvs_def)
  have ch1: "children (nodes h1 self) = Some cs"
    by (simp add: modify_def allocate_def h1_def cs_def)
  have cs_ne: "cs \<noteq> []" using moves by (simp add: cs_def mvs_def)
  have cs_new: "\<And>c. c \<in> set cs \<Longrightarrow> next_id h \<le> c" by (simp add: cs_def)
  have max1: "is_maximizing (nodes h1 self) = is_maximizing (nodes h self)"
    by (simp add: modify_def allocate_def h1_def)
  have par1: "\<And>i. i < next_id h \<Longrightarrow> parent_of h1 i = parent_of h i"
    by (simp add: parent_of_def modify_def allocate_def h1_def)
  have old1: "\<And>i. i < next_id h \<Longrightarrow> i \<noteq> self \<Longrightarrow> nodes h1 i = nodes h i"
    by (simp add: modify_def allocate_def h1_def)
  define cv where "cv = (if is_maximizing (nodes h self)
                      then Max (set (map (\<lambda>c. heuristic (nodes h1 c)) cs))
                      else Min (set (map (\<lambda>c. heuristic (nodes h1 c)) cs)))"
  have cv: "critical_value_of h1 (is_maximizing (nodes h1 self)) cs = Inr cv"
    using cs_ne max1 by (simp add: critical_value_of_def py_max_Max py_min_Min cv_def)
  define h2 where "h2 = modify self (\<lambda>n. n\<lparr>heuristic := cv\<rparr>) h1"
  have self2: "heuristic (nodes h2 self) = cv" "children (nodes h2 self) = Some cs"
    "is_maximizing (nodes h2 self) = is_maximizing (nodes h self)"
    using ch1 max1 by (simp_all add: h2_def modify_def)
  have other2: "\<And>i. i \<noteq> self \<Longrightarrow> nodes h2 i = nodes h1 i" by (simp add: h2_def modify_def)
  have par2: "\<And>i. i < next_id h \<Longrightarrow> parent_of h2 i = parent_of h i"
    using par1 by (simp add: parent_of_def h2_def modify_def)
  have d: "distinct (self # as)"
    using chain_distinct[of "parent_of h" "Some self" "self # as"] anc by simp
  then have self_as: "self \<notin> set as" and das: "distinct as" by simp_all
  have same2: "\<And>a. a \<in> set as \<Longrightarrow> nodes h2 a = nodes h a"
  proof -
    fix a assume "a \<in> set as"
    then have "a < next_id h" "a \<noteq> self" using alloc(2) self_as by auto
    then show "nodes h2 a = nodes h a" using other2 old1 by simp
  qed
  have "chain (parent_of h2) (parent_of h self) as = chain (parent_of h) (parent_of h self) as"
    by (rule chain_cong) (use par2 alloc(2) in auto)
  then have anc2: "chain (parent_of h2) (parent_of h2 self) as"
    using anc par2[OF alloc(1)] by simp
  define P where "P = (\<lambda>a. beats cv (nodes h a))"
  have tw2: "takeWhile (\<lambda>a. beats cv (nodes h2 a)) as = takeWhile P as"
    unfolding P_def by (rule takeWhile_cong) (simp_all add: same2)
  have dw2: "dropWhile (\<lambda>a. beats cv (nodes h2 a)) as = dropWhile P as"
    unfolding P_def by (rule dropWhile_cong) (simp_all add: same2)
  from backup_heuristic_chain[OF anc2 fuel, of cv]
  obtain h3 node' where h3: "backup_heuristic fuel cv h2 (parent_of h2 self) = Some (h3, node')"
    "parent_of h3 = parent_of h2"
    "chain (parent_of h2) node' (drop (Suc (length (takeWhile (\<lambda>a. beats cv (nodes h2 a)) as))) as)"
    "\<forall>i. nodes h3 i =
         (if i \<in> set (takeWhile (\<lambda>a. beats cv (nodes h2 a)) as)
          then (nodes h2 i)\<lparr>heuristic := cv, expansions := expansions (nodes h2 i) + 1\<rparr>
          else if i \<in> set (take 1 (dropWhile (\<lambda>a. beats cv (nodes h2 a)) as)) then bump (nodes h2 i)
          else nodes h2 i)"
    by blast
  define T where "T = set (takeWhile P as)"
  define F where "F = set (take 1 (dropWhile P as))"
  define R where "R = set (drop (Suc (length (takeWhile P as))) as)"
  have h3_nodes: "\<And>i. nodes h3 i =
         (if i \<in> T then (nodes h2 i)\<lparr>heuristic := cv, expansions := expansions (nodes h2 i) + 1\<rparr>
          else if i \<in> F then bump (nodes h2 i) else nodes h2 i)"
    using h3(4) unfolding tw2 dw2 T_def F_def by simp
  have anc3: "chain (parent_of h3) node' (drop (Suc (length (takeWhile P as))) as)"
    using h3(3) h3(2) unfolding tw2 by simp
  have "length (drop (Suc (length (takeWhile P as))) as) \<le> fuel" using fuel by simp
  from backup_expansions_chain[OF anc3 this]
  obtain h4 where h4: "backup_expansions fuel h3 node' = Some h4"
    and h4_all: "\<forall>i. nodes h4 i = (if i \<in> set (drop (Suc (length (takeWhile P as))) as)
                                    then bump (nodes h3 i) else nodes h3 i)"
    by blast
  have h4_nodes: "\<And>i. nodes h4 i = (if i \<in> R then bump (nodes h3 i) else nodes h3 i)"
    using h4_all unfolding R_def by simp
  have run: "HeuristicNode_expand fuel cfg h self = Some (Inr h4)"
    unfolding HeuristicNode_expand_def
    using leaf unsolved ens ch1 cv h3(1) h4
    by (simp add: Let_def parent_of_def h2_def[symmetric])
  have subs: "T \<subseteq> set as" "F \<subseteq> set as" "R \<subseteq> set as"
    unfolding T_def F_def R_def by (auto dest: set_takeWhileD in_set_takeD set_dropWhileD in_set_dropD)
  have DW: "set (dropWhile P as) = F \<union> R"
    unfolding F_def R_def by (rule take1_dropWhile_drop)
  have disj1: "T \<inter> (F \<union> R) = {}"
    using distinct_takeWhile_dropWhile[OF das, of P] unfolding T_def DW[symmetric] .
  have disj2: "F \<inter> R = {}"
    unfolding F_def R_def by (rule distinct_take1_drop[OF das])
  have as_split: "set as = T \<union> F \<union> R"
    using set_takeWhile_dropWhile[of as P] unfolding DW T_def by (simp only: Un_assoc)
  have untouched: "\<And>i. i \<notin> set as \<Longrightarrow> nodes h4 i = nodes h2 i"
  proof -
    fix i assume "i \<notin> set as"
    then have "i \<notin> T" "i \<notin> F" "i \<notin> R" using subs by auto
    then show "nodes h4 i = nodes h2 i" by (simp add: h4_nodes h3_nodes)
  qed
  have self4: "nodes h4 self = nodes h2 self" using untouched self_as by simp
  have new4: "\<And>c. c \<in> set cs \<Longrightarrow> nodes h4 c = nodes h1 c"
  proof -
    fix c assume c: "c \<in> set cs"
    then have "next_id h \<le> c" by (rule cs_new)
    then have "c \<notin> set as" "c \<noteq> self" using alloc by auto
    then show "nodes h4 c = nodes h1 c" using untouched other2 by simp
  qed
  have heur_self: "heuristic (nodes h4 self) = cv" using self4 self2 by simp
  have ch4: "children (nodes h4 self) = Some cs" using self4 self2 by simp
  have max4: "is_maximizing (nodes h4 self) = is_maximizing (nodes h self)"
    using self4 self2 by simp
  have "map (\<lambda>c. heuristic (nodes h4 c)) cs = map (\<lambda>c. heuristic (nodes h1 c)) cs"
    by (rule map_cong) (simp_all add: new4)
  then have mm: "minimax_value (HeuristicNode_methods cfg) h4 self cs = cv"
    using max4
    by (simp add: minimax_value_def value_of_def HeuristicNode_methods_def
        HeuristicNode_get_evaluation_def cv_def)
  have c1: "\<forall>a\<in>T. heuristic (nodes h4 a) = cv"
  proof
    fix a assume a: "a \<in> T"
    then have "a \<notin> R" using disj1 by auto
    then show "heuristic (nodes h4 a) = cv" using a by (simp add: h4_nodes h3_nodes)
  qed
  have c2: "\<forall>a\<in>F \<union> R. heuristic (nodes h4 a) = heuristic (nodes h a)"
  proof
    fix a assume a: "a \<in> F \<union> R"
    then have ntw: "a \<notin> T" using disj1 by auto
    have "a \<in> set as" using a subs by auto
    then have "nodes h2 a = nodes h a" by (rule same2)
    then show "heuristic (nodes h4 a) = heuristic (nodes h a)"
      using ntw by (simp add: h4_nodes h3_nodes bump_def)
  qed
  have c3: "\<forall>a\<in>set as. expansions (nodes h4 a) = expansions (nodes h a) + 1"
  proof
    fix a assume a: "a \<in> set as"
    then have same: "nodes h2 a = nodes h a" by (rule same2)
    consider (tw) "a \<in> T" "a \<notin> R" | (t1) "a \<in> F" "a \<notin> T" "a \<notin> R" | (rest) "a \<in> R" "a \<notin> T" "a \<notin> F"
      using a as_split disj1 disj2 by auto
    then show "expansions (nodes h4 a) = expansions (nodes h a) + 1"
      by cases (simp_all add: h4_nodes h3_nodes same bump_def)
  qed
  have init4: "\<forall>c\<in>set cs. nodes h4 c = new_child cfg h self c"
  proof
    fix c assume c: "c \<in> set cs"
    then have "c \<noteq> self" using cs_new[OF c] alloc(1) by simp
    then have "nodes h1 c = new_child cfg h self c"
      using c by (simp add: h1_def modify_def allocate_def cs_def new_child_def mvs_def Let_def)
    then show "nodes h4 c = new_child cfg h self c" using new4[OF c] by simp
  qed
  have "HeuristicNode_expand fuel cfg h self = Some (Inr h4) \<and>
      children (nodes h4 self) = Some cs \<and> cs \<noteq> [] \<and>
      cs = [next_id h ..< next_id h + length (get_possible_moves (GameClass cfg) (position (nodes h self)))] \<and>
      (\<forall>c\<in>set cs. nodes h4 c = new_child cfg h self c) \<and>
      is_maximizing (nodes h4 self) = is_maximizing (nodes h self) \<and>
      heuristic (nodes h4 self) = minimax_value (HeuristicNode_methods cfg) h4 self cs \<and>
      (\<forall>a\<in>set (takeWhile (\<lambda>a. beats (heuristic (nodes h4 self)) (nodes h a)) as).
          heuristic (nodes h4 a) = heuristic (nodes h4 self)) \<and>
      (\<forall>a\<in>set (dropWhile (\<lambda>a. beats (heuristic (nodes h4 self)) (nodes h a)) as).
          heuristic (nodes h4 a) = heuristic (nodes h a)) \<and>
      (\<forall>a\<in>set as. expansions (nodes h4 a) = expansions (nodes h a) + 1)"
    using run ch4 cs_ne mm c1 c2 c3 init4 cs_def[unfolded mvs_def] max4
    unfolding heur_self P_def[symmetric] T_def[symmetric] DW by simp
  then show ?thesis by blast
qed

lemmas backup_defs = backup_heap_def binary_cfg_def binary_game_def HeuristicNode_init_def

theorem C6_heuristic_expand_witness:
  "\<exists>h'. HeuristicNode_expand (Suc (Suc 0)) binary_cfg backup_heap 3 = Some (Inr h') \<and>
      children (nodes h' 3) = Some [5, 6] \<and> heuristic (nodes h' 5) = 0.3 \<and> heuristic (nodes h' 6) = 0.4 \<and>
      heuristic (nodes h' 3) = 0.4 \<and> heuristic (nodes h' 1) = 0.4 \<and> heuristic (nodes h' 0) = 0.6 \<and>
      expansions (nodes h' 1) = enat 2 \<and> expansions (nodes h' 0) = enat 3"
proof -
  have leaf: "children (nodes backup_heap 3) = None" "\<not> fully_expanded (nodes backup_heap 3)"
    "get_possible_moves (GameClass binary_cfg) (position (nodes backup_heap 3)) \<noteq> []"
    by (simp_all add: backup_defs)
  have anc: "chain (parent_of backup_heap) (parent_of backup_heap 3) [1, 0]"
    by (simp add: parent_of_def backup_defs)
  have alloc: "3 < next_id backup_heap" "\<forall>a\<in>set [1, 0]. a < next_id backup_heap"
    by (simp_all add: backup_defs)
  have fuel: "length [1::nat, 0] \<le> Suc (Suc 0)" by simp
  from C6_heuristic_expand[OF leaf anc alloc fuel]
  obtain h' cs where run: "HeuristicNode_expand (Suc (Suc 0)) binary_cfg backup_heap 3 = Some (Inr h')"
    and ch: "children (nodes h' 3) = Some cs"
    and cs: "cs = [next_id backup_heap ..< next_id backup_heap +
                length (get_possible_moves (GameClass binary_cfg) (position (nodes backup_heap 3)))]"
    and new: "\<forall>c\<in>set cs. nodes h' c = new_child binary_cfg backup_heap 3 c"
    and mx: "is_maximizing (nodes h' 3) = is_maximizing (nodes backup_heap 3)"
    and cv: "heuristic (nodes h' 3) = minimax_value (HeuristicNode_methods binary_cfg) h' 3 cs"
    and tw: "\<forall>a\<in>set (takeWhile (\<lambda>a. beats (heuristic (nodes h' 3)) (nodes backup_heap a)) [1, 0]).
          heuristic (nodes h' a) = heuristic (nodes h' 3)"
    and dw: "\<forall>a\<in>set (dropWhile (\<lambda>a. beats (heuristic (nodes h' 3)) (nodes backup_heap a)) [1, 0]).
          heuristic (nodes h' a) = heuristic (nodes backup_heap a)"
    and ex: "\<forall>a\<in>set [1, 0]. expansions (nodes h' a) = expansions (nodes backup_heap a) + 1"
    by blast
  have cs56: "cs = [5, 6]" using cs by (simp add: backup_defs upt_rec)
  have n5: "heuristic (nodes h' 5) = 0.3" and n6: "heuristic (nodes h' 6) = 0.4"
    using new cs56 by (simp_all add: new_child_def backup_defs)
  have v: "heuristic (nodes h' 3) = 0.4"
    using cv mx n5 n6 cs56
    by (simp add: minimax_value_def value_of_def HeuristicNode_methods_def HeuristicNode_get_evaluation_def
        backup_defs)
  have b1: "beats 0.4 (nodes backup_heap 1)" and b0: "\<not> beats 0.4 (nodes backup_heap 0)"
    by (simp_all add: beats_def backup_defs)
  have "heuristic (nodes h' 1) = 0.4" using tw b1 b0 unfolding v by simp
  moreover have "heuristic (nodes h' 0) = 0.6" using dw b1 b0 unfolding v by (simp add: backup_defs)
  moreover have "expansions (nodes h' 1) = enat 2" "expansions (nodes h' 0) = enat 3"
    using ex by (simp_all add: backup_defs one_enat_def)
  ultimately show ?thesis using run ch cs56 n5 n6 v by blast
qed

section \<open>Solved nodes stay solved\<close>

lemma scan_Infinite_puct:
  "scan_children M h self i rest best bc = Inr (Infinite_puct c) \<Longrightarrow>
   c \<in> set rest \<and> \<not> fully_expanded (nodes h c)"
proof (induction rest arbitrary: i best bc)
  case Nil
  then show ?case by simp
next
  case (Cons child rest)
  then show ?case
    by (auto simp: Let_def split: if_splits sum.splits)
qed

lemma scan_Loop_end_Some:
  "scan_children M h self i rest best bc = Inr (Loop_end (Some b)) \<Longrightarrow> b \<in> set rest \<or> bc = Some b"
proof (induction rest arbitrary: i best bc)
  case Nil
  then show ?case by simp
next
  case (Cons child rest)
  then show ?case
    by (fastforce simp: Let_def split: if_splits sum.splits)
qed

lemma scan_Loop_end_keeps_Some:
  "scan_children M h self i rest best (Some b) = Inr (Loop_end r) \<Longrightarrow> r \<noteq> None"
proof (induction rest arbitrary: i best b)
  case Nil
  then show ?case by auto
next
  case (Cons child rest)
  then show ?case
    by (fastforce simp: Let_def split: if_splits sum.splits)
qed

lemma not_nan_not_inf: "p \<noteq> NaN \<Longrightarrow> \<not> np_isinf p \<Longrightarrow> \<exists>x. p = Fin x"
  by (cases p) auto

lemma scan_Loop_end_None:
  assumes puct: "\<And>i p. get_puct_heuristic_for_child M h self i = Inr p \<Longrightarrow> p \<noteq> NaN"
  shows "scan_children M h self i rest (if is_maximizing (nodes h self) then NInf else PInf) None
           = Inr (Loop_end None) \<Longrightarrow> \<forall>c\<in>set rest. fully_expanded (nodes h c)"
proof (induction rest arbitrary: i)
  case Nil
  then show ?case by simp
next
  case (Cons child rest)
  show ?case
  proof (cases "fully_expanded (nodes h child)")
    case True
    then have "scan_children M h self (Suc i) rest (if is_maximizing (nodes h self) then NInf else PInf) None
        = Inr (Loop_end None)"
      using Cons.prems by (auto split: sum.splits if_splits)
    from Cons.IH[OF this] True show ?thesis by simp
  next
    case False
    obtain p where p: "get_puct_heuristic_for_child M h self i = Inr p" "\<not> np_isinf p"
      using Cons.prems False by (auto split: sum.splits if_splits)
    then obtain x where x: "p = Fin x" using puct not_nan_not_inf by blast
    obtain ev where ev: "get_evaluation M (nodes h child) = Inr ev"
      using Cons.prems False p by (auto split: sum.splits if_splits)
    have "\<exists>best'. scan_children M h self (Suc i) rest best' (Some child) = Inr (Loop_end None)"
      using Cons.prems False p ev x by (auto simp: Let_def np_sub_def np_lt_def split: if_splits)
    then show ?thesis using scan_Loop_end_keeps_Some by blast
  qed
qed

lemma sequence_Inr_map: "sequence rs = Inr xs \<Longrightarrow> rs = map Inr xs"
proof (induction rs arbitrary: xs)
  case Nil
  then show ?case by simp
next
  case (Cons r rs)
  then show ?case by (cases r) (auto split: sum.splits)
qed

lemma scan_Optimal_child:
  "scan_children M h self i rest best bc = Inr Optimal_child \<Longrightarrow>
   \<exists>c\<in>set rest. fully_expanded (nodes h c) \<and>
      get_evaluation M (nodes h c) = Inr (optimal_value (nodes h self))"
proof (induction rest arbitrary: i best bc)
  case Nil
  then show ?case by simp
next
  case (Cons child rest)
  then show ?case
    by (fastforce simp: Let_def split: if_splits sum.splits)
qed

lemma game_value_unique: "game_value G p v \<Longrightarrow> game_value G p w \<Longrightarrow> v = w"
proof (induction arbitrary: w rule: game_value.induct)
  case (terminal p)
  from terminal(2) terminal(1) show ?case by cases simp_all
next
  case (inner p vs)
  note nt = inner.hyps(1) and len = inner.hyps(3) and IH = inner.IH
  from inner.prems show ?case
  proof (cases rule: game_value.cases)
    case terminal
    then show ?thesis using nt by simp
  next
    case (inner ws)
    have "vs = ws"
    proof (rule nth_equalityI)
      show "length vs = length ws" using len inner(4) by simp
    next
      fix i assume "i < length vs"
      then show "vs ! i = ws ! i" using IH[of i "ws ! i"] inner(5)[of i] len inner(4) by simp
    qed
    then show ?thesis using inner(1) by simp
  qed
qed

lemma game_value_range:
  assumes "terminal_outcomes G"
  shows "game_value G p v \<Longrightarrow> v \<in> {- 1, 0, 1}"
proof (induction rule: game_value.induct)
  case (terminal p)
  then show ?case using assms unfolding terminal_outcomes_def by blast
next
  case (inner p vs)
  have all: "x \<in> {- 1, 0, 1}" if x: "x \<in> set vs" for x
  proof -
    obtain i where "i < length vs" "vs ! i = x" using x unfolding in_set_conv_nth by blast
    then show ?thesis using inner.IH[of i] by simp
  qed
  have "Max (set vs) \<in> set vs" "Min (set vs) \<in> set vs"
    using inner.hyps(2) by simp_all
  then show ?case using all[of "Max (set vs)"] all[of "Min (set vs)"]
    by (cases "is_player_1_turn G p") simp_all
qed

lemma values_exist:
  assumes "finite_game G"
  shows "\<exists>vs. length vs = length ms \<and> (\<forall>i<length ms. game_value G (ms ! i) (vs ! i))"
proof -
  have "\<And>q. game_value G q (SOME v. game_value G q v)"
    using assms unfolding finite_game_def by (metis someI_ex)
  then have "length (map (\<lambda>q. SOME v. game_value G q v) ms) = length ms \<and>
      (\<forall>i<length ms. game_value G (ms ! i) (map (\<lambda>q. SOME v. game_value G q v) ms ! i))"
    by simp
  then show ?thesis by blast
qed

lemma minimax_exact:
  assumes kids: "\<forall>c\<in>set cs. \<exists>v. get_evaluation M (nodes h c) = Inr v \<and> game_value G (position (nodes h c)) v"
    and moves: "map (\<lambda>c. position (nodes h c)) cs = get_possible_moves G p"
    and nt: "\<not> is_over G p"
    and mm: "minimax_of_children M h (is_player_1_turn G p) cs = Inr v"
  shows "game_value G p v"
proof -
  obtain evs where evs: "sequence (map (\<lambda>child. get_evaluation M (nodes h child)) cs) = Inr evs"
    and v: "(if is_player_1_turn G p then py_max evs else py_min evs) = Inr v"
    using mm by (auto simp: minimax_of_children_def split: sum.splits)
  have m: "map (\<lambda>child. get_evaluation M (nodes h child)) cs = map Inr evs"
    using sequence_Inr_map[OF evs] .
  have len: "length evs = length cs" using arg_cong[OF m, of length] by simp
  have len': "length evs = length (get_possible_moves G p)"
    using len arg_cong[OF moves, of length] by simp
  have ne: "evs \<noteq> []" using v by (cases evs) (auto split: if_splits)
  have each: "game_value G (get_possible_moves G p ! i) (evs ! i)" if i: "i < length evs" for i
  proof -
    have c: "cs ! i \<in> set cs" using i len by simp
    have "map (\<lambda>child. get_evaluation M (nodes h child)) cs ! i = map Inr evs ! i" using m by simp
    then have e: "get_evaluation M (nodes h (cs ! i)) = Inr (evs ! i)" using i len by simp
    have "map (\<lambda>c. position (nodes h c)) cs ! i = get_possible_moves G p ! i" using moves by simp
    then have q: "position (nodes h (cs ! i)) = get_possible_moves G p ! i" using i len by simp
    from kids c e have "game_value G (position (nodes h (cs ! i))) (evs ! i)" by auto
    then show ?thesis using q by simp
  qed
  have "v = (if is_player_1_turn G p then Max (set evs) else Min (set evs))"
    using v ne by (simp add: py_max_Max py_min_Min split: if_splits)
  then show ?thesis using game_value.inner[OF nt ne len' each] by simp
qed

lemma optimal_exact:
  assumes fin: "finite_game G" and outcomes: "terminal_outcomes G" and nt: "\<not> is_over G p"
    and k: "k < length (get_possible_moves G p)"
    and won: "game_value G (get_possible_moves G p ! k) (if is_player_1_turn G p then 1 else - 1)"
  shows "game_value G p (if is_player_1_turn G p then 1 else - 1)"
proof -
  obtain vs where len: "length vs = length (get_possible_moves G p)"
    and each: "\<And>i. i < length vs \<Longrightarrow> game_value G (get_possible_moves G p ! i) (vs ! i)"
    using values_exist[OF fin, of "get_possible_moves G p"] by auto
  have ne: "vs \<noteq> []" using k len by auto
  have "vs ! k = (if is_player_1_turn G p then 1 else - 1)"
    using game_value_unique[OF each[of k] won] k len by simp
  then have mem: "(if is_player_1_turn G p then 1 else - 1) \<in> set vs"
    using k len by (metis nth_mem)
  have bound: "- 1 \<le> x \<and> x \<le> 1" if x: "x \<in> set vs" for x
  proof -
    obtain i where "i < length vs" "vs ! i = x" using x unfolding in_set_conv_nth by blast
    then have "x \<in> {- 1, 0, 1}" using game_value_range[OF outcomes each[of i]] by simp
    then show ?thesis by auto
  qed
  have "(if is_player_1_turn G p then Max (set vs) else Min (set vs)) =
        (if is_player_1_turn G p then 1 else - 1)"
  proof (cases "is_player_1_turn G p")
    case True
    then have "Max (set vs) = 1" using mem bound by (intro Max_eqI) auto
    then show ?thesis using True by simp
  next
    case False
    then have "Min (set vs) = - 1" using mem bound by (intro Min_eqI) auto
    then show ?thesis using False by simp
  qed
  then show ?thesis using game_value.inner[OF nt ne len each] by simp
qed

lemma search_invI:
  assumes "\<And>n cs c. n < next_id h \<Longrightarrow> children (nodes h n) = Some cs \<Longrightarrow> c \<in> set cs \<Longrightarrow>
             c < next_id h \<and> parent (nodes h c) = Some n"
    and "\<And>n cs. n < next_id h \<Longrightarrow> children (nodes h n) = Some cs \<Longrightarrow>
             map (\<lambda>c. position (nodes h c)) cs = get_possible_moves G (position (nodes h n))"
    and "\<And>n. n < next_id h \<Longrightarrow> is_maximizing (nodes h n) = is_player_1_turn G (position (nodes h n))"
    and "\<And>n. n < next_id h \<Longrightarrow> fully_expanded (nodes h n) \<Longrightarrow>
             \<exists>v. get_evaluation M (nodes h n) = Inr v \<and> game_value G (position (nodes h n)) v"
    and "\<And>n. n < next_id h \<Longrightarrow> \<not> fully_expanded (nodes h n) \<Longrightarrow>
             \<not> is_over G (position (nodes h n)) \<and> count_expansions M (nodes h n) \<noteq> \<infinity>"
  shows "search_inv M G h"
  unfolding search_inv_def using assms by blast

lemma search_inv_links:
  "search_inv M G h \<Longrightarrow> n < next_id h \<Longrightarrow> children (nodes h n) = Some cs \<Longrightarrow> c \<in> set cs \<Longrightarrow>
   c < next_id h \<and> parent (nodes h c) = Some n"
  unfolding search_inv_def by blast

lemma search_inv_moves:
  "search_inv M G h \<Longrightarrow> n < next_id h \<Longrightarrow> children (nodes h n) = Some cs \<Longrightarrow>
   map (\<lambda>c. position (nodes h c)) cs = get_possible_moves G (position (nodes h n))"
  unfolding search_inv_def by blast

lemma search_inv_player:
  "search_inv M G h \<Longrightarrow> n < next_id h \<Longrightarrow>
   is_maximizing (nodes h n) = is_player_1_turn G (position (nodes h n))"
  unfolding search_inv_def by blast

lemma search_inv_solved:
  "search_inv M G h \<Longrightarrow> n < next_id h \<Longrightarrow> fully_expanded (nodes h n) \<Longrightarrow>
   \<exists>v. get_evaluation M (nodes h n) = Inr v \<and> game_value G (position (nodes h n)) v"
  unfolding search_inv_def by blast

lemma search_inv_unsolved:
  "search_inv M G h \<Longrightarrow> n < next_id h \<Longrightarrow> \<not> fully_expanded (nodes h n) \<Longrightarrow>
   \<not> is_over G (position (nodes h n)) \<and> count_expansions M (nodes h n) \<noteq> \<infinity>"
  unfolding search_inv_def by blast

lemma open_path_Some:
  "open_path h (Some n) = (n < next_id h \<and> \<not> fully_expanded (nodes h n) \<and> open_path h (parent_of h n))"
proof
  assume "open_path h (Some n)"
  then obtain as where as: "chain (parent_of h) (Some n) as"
    "\<forall>a\<in>set as. a < next_id h \<and> \<not> fully_expanded (nodes h a)"
    by (auto simp: open_path_def)
  then obtain rest where "as = n # rest" "chain (parent_of h) (parent_of h n) rest"
    by (cases as) auto
  then show "n < next_id h \<and> \<not> fully_expanded (nodes h n) \<and> open_path h (parent_of h n)"
    using as(2) by (auto simp: open_path_def)
next
  assume a: "n < next_id h \<and> \<not> fully_expanded (nodes h n) \<and> open_path h (parent_of h n)"
  then obtain as where as: "chain (parent_of h) (parent_of h n) as"
    "\<forall>a\<in>set as. a < next_id h \<and> \<not> fully_expanded (nodes h a)"
    by (auto simp: open_path_def)
  then have "chain (parent_of h) (Some n) (n # as)" by simp
  moreover have "\<forall>a\<in>set (n # as). a < next_id h \<and> \<not> fully_expanded (nodes h a)"
    using a as(2) by simp
  ultimately show "open_path h (Some n)" unfolding open_path_def by blast
qed

lemma self_not_ancestor: "chain (parent_of h) (parent_of h self) as \<Longrightarrow> self \<notin> set as"
  using chain_distinct[of "parent_of h" "Some self" "self # as"] by simp

lemma open_path_frame:
  assumes "open_path h (parent_of h self)"
    and same: "\<And>a. a < next_id h \<Longrightarrow> a \<noteq> self \<Longrightarrow> nodes h' a = nodes h a"
    and le: "next_id h \<le> next_id h'"
  shows "open_path h' (parent_of h self)"
proof -
  obtain as where as: "chain (parent_of h) (parent_of h self) as"
    "\<forall>a\<in>set as. a < next_id h \<and> \<not> fully_expanded (nodes h a)"
    using assms(1) by (auto simp: open_path_def)
  have notin: "self \<notin> set as" using self_not_ancestor[OF as(1)] .
  have eq: "\<And>a. a \<in> set as \<Longrightarrow> nodes h' a = nodes h a"
    using as(2) notin same by blast
  have "chain (parent_of h') (parent_of h self) as = chain (parent_of h) (parent_of h self) as"
    by (rule chain_cong) (simp add: parent_of_def eq)
  then have "chain (parent_of h') (parent_of h self) as" using as(1) by simp
  moreover have "\<forall>a\<in>set as. a < next_id h' \<and> \<not> fully_expanded (nodes h' a)"
    using as(2) eq le by auto
  ultimately show ?thesis unfolding open_path_def by blast
qed

lemma solve_inv:
  assumes law: "lawful M G" and inv: "search_inv M G h" and self: "self < next_id h"
    and v: "game_value G (position (nodes h self)) v"
  shows "search_inv M G (modify self (set_fully_expanded M v) h)"
proof -
  let ?h2 = "modify self (set_fully_expanded M v) h"
  have sfe: "fully_expanded (set_fully_expanded M v (nodes h self))"
    "position (set_fully_expanded M v (nodes h self)) = position (nodes h self)"
    "is_maximizing (set_fully_expanded M v (nodes h self)) = is_maximizing (nodes h self)"
    "parent (set_fully_expanded M v (nodes h self)) = parent (nodes h self)"
    "children (set_fully_expanded M v (nodes h self)) = children (nodes h self)"
    "get_evaluation M (set_fully_expanded M v (nodes h self)) = Inr v"
    using law unfolding lawful_def by blast+
  have nid: "next_id ?h2 = next_id h" by (simp add: modify_def)
  have ch: "\<And>n. children (nodes ?h2 n) = children (nodes h n)"
    and pa: "\<And>n. parent (nodes ?h2 n) = parent (nodes h n)"
    and po: "\<And>n. position (nodes ?h2 n) = position (nodes h n)"
    and mx: "\<And>n. is_maximizing (nodes ?h2 n) = is_maximizing (nodes h n)"
    using sfe by (simp_all add: modify_def)
  have other: "\<And>n. n \<noteq> self \<Longrightarrow> nodes ?h2 n = nodes h n" by (simp add: modify_def)
  have me: "nodes ?h2 self = set_fully_expanded M v (nodes h self)" by (simp add: modify_def)
  show ?thesis
  proof (rule search_invI)
    fix n cs c assume "n < next_id ?h2" "children (nodes ?h2 n) = Some cs" "c \<in> set cs"
    then show "c < next_id ?h2 \<and> parent (nodes ?h2 c) = Some n"
      using search_inv_links[OF inv, of n cs c] by (simp add: nid ch pa)
  next
    fix n cs assume "n < next_id ?h2" "children (nodes ?h2 n) = Some cs"
    then show "map (\<lambda>c. position (nodes ?h2 c)) cs = get_possible_moves G (position (nodes ?h2 n))"
      using search_inv_moves[OF inv, of n cs] by (simp add: nid ch po)
  next
    fix n assume "n < next_id ?h2"
    then show "is_maximizing (nodes ?h2 n) = is_player_1_turn G (position (nodes ?h2 n))"
      using search_inv_player[OF inv, of n] by (simp add: nid po mx)
  next
    fix n assume n: "n < next_id ?h2" "fully_expanded (nodes ?h2 n)"
    show "\<exists>w. get_evaluation M (nodes ?h2 n) = Inr w \<and> game_value G (position (nodes ?h2 n)) w"
    proof (cases "n = self")
      case True
      then show ?thesis using me sfe(2,6) v by simp
    next
      case False
      then show ?thesis using n other[OF False] search_inv_solved[OF inv, of n] by (simp add: nid)
    qed
  next
    fix n assume n: "n < next_id ?h2" "\<not> fully_expanded (nodes ?h2 n)"
    then have ns: "n \<noteq> self" using me sfe(1) by auto
    show "\<not> is_over G (position (nodes ?h2 n)) \<and> count_expansions M (nodes ?h2 n) \<noteq> \<infinity>"
      using n other[OF ns] search_inv_unsolved[OF inv, of n] by (simp add: nid)
  qed
qed

lemma modify_unsolved_inv:
  assumes inv: "search_inv M G h" and i: "\<not> fully_expanded (nodes h i)"
    and f: "parent (f (nodes h i)) = parent (nodes h i)" "children (f (nodes h i)) = children (nodes h i)"
      "\<not> fully_expanded (f (nodes h i))" "count_expansions M (f (nodes h i)) \<noteq> \<infinity>"
      "position (f (nodes h i)) = position (nodes h i)"
      "is_maximizing (f (nodes h i)) = is_maximizing (nodes h i)"
  shows "search_inv M G (modify i f h)"
proof -
  let ?h2 = "modify i f h"
  have nid: "next_id ?h2 = next_id h" by (simp add: modify_def)
  have ch: "\<And>n. children (nodes ?h2 n) = children (nodes h n)"
    and pa: "\<And>n. parent (nodes ?h2 n) = parent (nodes h n)"
    and fe: "\<And>n. fully_expanded (nodes ?h2 n) = fully_expanded (nodes h n)"
    and po: "\<And>n. position (nodes ?h2 n) = position (nodes h n)"
    and mx: "\<And>n. is_maximizing (nodes ?h2 n) = is_maximizing (nodes h n)"
    using f i by (simp_all add: modify_def)
  have other: "\<And>n. n \<noteq> i \<Longrightarrow> nodes ?h2 n = nodes h n" by (simp add: modify_def)
  have me: "nodes ?h2 i = f (nodes h i)" by (simp add: modify_def)
  show ?thesis
  proof (rule search_invI)
    fix n cs c assume "n < next_id ?h2" "children (nodes ?h2 n) = Some cs" "c \<in> set cs"
    then show "c < next_id ?h2 \<and> parent (nodes ?h2 c) = Some n"
      using search_inv_links[OF inv, of n cs c] by (simp add: nid ch pa)
  next
    fix n cs assume "n < next_id ?h2" "children (nodes ?h2 n) = Some cs"
    then show "map (\<lambda>c. position (nodes ?h2 c)) cs = get_possible_moves G (position (nodes ?h2 n))"
      using search_inv_moves[OF inv, of n cs] by (simp add: nid ch po)
  next
    fix n assume "n < next_id ?h2"
    then show "is_maximizing (nodes ?h2 n) = is_player_1_turn G (position (nodes ?h2 n))"
      using search_inv_player[OF inv, of n] by (simp add: nid po mx)
  next
    fix n assume n: "n < next_id ?h2" "fully_expanded (nodes ?h2 n)"
    then have ni: "n \<noteq> i" using me f(3) by auto
    show "\<exists>w. get_evaluation M (nodes ?h2 n) = Inr w \<and> game_value G (position (nodes ?h2 n)) w"
      using n other[OF ni] search_inv_solved[OF inv, of n] by (simp add: nid)
  next
    fix n assume n: "n < next_id ?h2" "\<not> fully_expanded (nodes ?h2 n)"
    show "\<not> is_over G (position (nodes ?h2 n)) \<and> count_expansions M (nodes ?h2 n) \<noteq> \<infinity>"
    proof (cases "n = i")
      case True
      then show ?thesis using me f(4) po[of i] search_inv_unsolved[OF inv, of i] n i by (simp add: nid)
    next
      case False
      then show ?thesis using n other[OF False] search_inv_unsolved[OF inv, of n] by (simp add: nid)
    qed
  qed
qed

lemma allocate_inv:
  assumes inv: "search_inv M G h" and self: "self < next_id h" and unsolved: "\<not> fully_expanded (nodes h self)"
    and moves: "moves = get_possible_moves G (position (nodes h self))"
    and born: "\<And>mv. parent (new mv) = Some self \<and> children (new mv) = None \<and>
        position (new mv) = mv \<and> is_maximizing (new mv) = is_player_1_turn G mv \<and>
        (fully_expanded (new mv) \<longrightarrow> (\<exists>v. get_evaluation M (new mv) = Inr v \<and> game_value G mv v)) \<and>
        (\<not> fully_expanded (new mv) \<longrightarrow> \<not> is_over G mv \<and> count_expansions M (new mv) \<noteq> \<infinity>)"
    and cnt: "\<And>x. count_expansions M ((nodes h self)\<lparr>children := x\<rparr>) = count_expansions M (nodes h self)"
  shows "search_inv M G (allocate self new moves h)"
proof -
  let ?h1 = "allocate self new moves h"
  let ?ids = "[next_id h ..< next_id h + length moves]"
  have nid: "next_id ?h1 = next_id h + length moves" by (simp add: allocate_def)
  have me: "nodes ?h1 self = (nodes h self)\<lparr>children := Some ?ids\<rparr>" by (simp add: allocate_def)
  have fresh: "\<And>i. next_id h \<le> i \<Longrightarrow> i < next_id h + length moves \<Longrightarrow>
      nodes ?h1 i = new (moves ! (i - next_id h))"
    using self by (simp add: allocate_def)
  have old: "\<And>i. i < next_id h \<Longrightarrow> i \<noteq> self \<Longrightarrow> nodes ?h1 i = nodes h i"
    by (simp add: allocate_def)
  have par_old: "\<And>i. i < next_id h \<Longrightarrow> parent (nodes ?h1 i) = parent (nodes h i)"
    using old me by (metis node.select_convs(2) node.surjective node.update_convs(5))
  have pos_old: "position (nodes ?h1 i) = position (nodes h i)" if "i < next_id h" for i
    using old[OF that] me by (cases "i = self") simp_all
  have max_old: "is_maximizing (nodes ?h1 i) = is_maximizing (nodes h i)" if "i < next_id h" for i
    using old[OF that] me by (cases "i = self") simp_all
  show ?thesis
  proof (rule search_invI)
    fix n cs c assume n: "n < next_id ?h1" "children (nodes ?h1 n) = Some cs" "c \<in> set cs"
    consider (is_self) "n = self" | (is_new) "next_id h \<le> n" | (is_old) "n < next_id h" "n \<noteq> self"
      by linarith
    then show "c < next_id ?h1 \<and> parent (nodes ?h1 c) = Some n"
    proof cases
      case is_self
      then have "cs = ?ids" using n(2) me by simp
      then have c: "next_id h \<le> c" "c < next_id h + length moves" using n(3) by simp_all
      then show ?thesis using fresh[OF c] born nid is_self by simp
    next
      case is_new
      then have "children (nodes ?h1 n) = None" using fresh[of n] n(1) nid born by simp
      then show ?thesis using n(2) by simp
    next
      case is_old
      then have "children (nodes h n) = Some cs" using n(2) old[of n] by simp
      then have "c < next_id h" "parent (nodes h c) = Some n"
        using search_inv_links[OF inv is_old(1) _ n(3)] by simp_all
      then show ?thesis using par_old nid by simp
    qed
  next
    fix n cs assume n: "n < next_id ?h1" "children (nodes ?h1 n) = Some cs"
    consider (is_self) "n = self" | (is_new) "next_id h \<le> n" | (is_old) "n < next_id h" "n \<noteq> self"
      by linarith
    then show "map (\<lambda>c. position (nodes ?h1 c)) cs = get_possible_moves G (position (nodes ?h1 n))"
    proof cases
      case is_self
      then have cs: "cs = ?ids" using n(2) me by simp
      have "map (\<lambda>c. position (nodes ?h1 c)) ?ids = moves"
      proof (rule nth_equalityI)
        show "length (map (\<lambda>c. position (nodes ?h1 c)) ?ids) = length moves" by simp
      next
        fix i assume "i < length (map (\<lambda>c. position (nodes ?h1 c)) ?ids)"
        then have i: "i < length moves" by simp
        then have "nodes ?h1 (next_id h + i) = new (moves ! i)"
          using fresh[of "next_id h + i"] by simp
        then show "map (\<lambda>c. position (nodes ?h1 c)) ?ids ! i = moves ! i"
          using i born by simp
      qed
      then show ?thesis using cs is_self pos_old[OF self] moves by simp
    next
      case is_new
      then have "children (nodes ?h1 n) = None" using fresh[of n] n(1) nid born by simp
      then show ?thesis using n(2) by simp
    next
      case is_old
      then have k: "children (nodes h n) = Some cs" using n(2) old[of n] by simp
      have "\<And>c. c \<in> set cs \<Longrightarrow> c < next_id h"
        using search_inv_links[OF inv is_old(1) k] by simp
      then have "map (\<lambda>c. position (nodes ?h1 c)) cs = map (\<lambda>c. position (nodes h c)) cs"
        using pos_old by simp
      then show ?thesis using search_inv_moves[OF inv is_old(1) k] pos_old[OF is_old(1)] by simp
    qed
  next
    fix n assume n: "n < next_id ?h1"
    consider (is_new) "next_id h \<le> n" | (is_old) "n < next_id h" by linarith
    then show "is_maximizing (nodes ?h1 n) = is_player_1_turn G (position (nodes ?h1 n))"
    proof cases
      case is_new
      then show ?thesis using fresh[of n] n nid born by simp
    next
      case is_old
      then show ?thesis using pos_old max_old search_inv_player[OF inv] by simp
    qed
  next
    fix n assume n: "n < next_id ?h1" "fully_expanded (nodes ?h1 n)"
    consider (is_self) "n = self" | (is_new) "next_id h \<le> n" | (is_old) "n < next_id h" "n \<noteq> self"
      by linarith
    then show "\<exists>v. get_evaluation M (nodes ?h1 n) = Inr v \<and> game_value G (position (nodes ?h1 n)) v"
    proof cases
      case is_self
      then show ?thesis using n(2) me unsolved by simp
    next
      case is_new
      then show ?thesis using fresh[of n] n nid born by simp
    next
      case is_old
      then show ?thesis using n old[of n] search_inv_solved[OF inv, of n] by simp
    qed
  next
    fix n assume n: "n < next_id ?h1" "\<not> fully_expanded (nodes ?h1 n)"
    consider (is_self) "n = self" | (is_new) "next_id h \<le> n" | (is_old) "n < next_id h" "n \<noteq> self"
      by linarith
    then show "\<not> is_over G (position (nodes ?h1 n)) \<and> count_expansions M (nodes ?h1 n) \<noteq> \<infinity>"
    proof cases
      case is_self
      then show ?thesis using me cnt search_inv_unsolved[OF inv self unsolved] by simp
    next
      case is_new
      then show ?thesis using fresh[of n] n nid born by simp
    next
      case is_old
      then show ?thesis using n old[of n] search_inv_unsolved[OF inv, of n] by simp
    qed
  qed
qed

lemma selection_invariant:
  assumes law: "lawful M G" and fin: "finite_game G" and outcomes: "terminal_outcomes G"
  shows "search_inv M G h \<Longrightarrow> self < next_id h \<Longrightarrow> open_path h (parent_of h self) \<Longrightarrow>
     choose_expansion_node fuel M h self = Some (Inr (h', r)) \<Longrightarrow>
     search_inv M G h' \<and> next_id h \<le> next_id h' \<and>
     (\<forall>m<next_id h. fully_expanded (nodes h m) \<longrightarrow> nodes h' m = nodes h m) \<and>
     (\<forall>m<next_id h. parent (nodes h' m) = parent (nodes h m)) \<and>
     (\<forall>m. r = Some m \<longrightarrow> open_path h' (Some m))"
proof (induction fuel arbitrary: h self h' r)
  case 0
  then show ?case by simp
next
  case (Suc fuel)
  note inv = Suc.prems(1) and self = Suc.prems(2) and above = Suc.prems(3) and run = Suc.prems(4)
  show ?case
  proof (cases "fully_expanded (nodes h self)")
    case True
    then have "h' = h" "r = None" using run by simp_all
    then show ?thesis using inv by simp
  next
    case unsolved: False
    show ?thesis
    proof (cases "count_expansions M (nodes h self) = 0")
      case True
      then have "h' = h" "r = Some self" using run unsolved by simp_all
      then show ?thesis using inv self unsolved above by (simp add: open_path_Some)
    next
      case visited: False
      obtain h1 where h1: "ensure_children M h self = Inr h1"
        using run unsolved visited by (cases "ensure_children M h self") auto
      from law[unfolded lawful_def, THEN conjunct1, rule_format, OF inv self unsolved h1]
      have inv1: "search_inv M G h1" and le1: "next_id h \<le> next_id h1"
        and same1: "\<And>i. i < next_id h \<Longrightarrow> i \<noteq> self \<Longrightarrow> nodes h1 i = nodes h i"
        and par1: "parent (nodes h1 self) = parent (nodes h self)"
        and unsolved1: "\<not> fully_expanded (nodes h1 self)"
        and count0: "count_expansions M (nodes h self) \<noteq> 0 \<longrightarrow> count_expansions M (nodes h1 self) \<noteq> 0"
        by blast+
      have self1: "self < next_id h1" using self le1 by simp
      have count1: "count_expansions M (nodes h1 self) \<noteq> 0" "count_expansions M (nodes h1 self) \<noteq> \<infinity>"
        using count0 visited search_inv_unsolved[OF inv1 self1 unsolved1] by blast+
      have nt1: "\<not> is_over G (position (nodes h1 self))"
        using search_inv_unsolved[OF inv1 self1 unsolved1] by blast
      have player1: "is_maximizing (nodes h1 self) = is_player_1_turn G (position (nodes h1 self))"
        using search_inv_player[OF inv1 self1] .
      have pof1: "parent_of h1 self = parent_of h self" using par1 by (simp add: parent_of_def)
      have above1: "open_path h1 (parent_of h1 self)"
        using open_path_frame[OF above same1 le1] pof1 by simp
      have open1: "open_path h1 (Some self)"
        using self1 unsolved1 above1 by (simp add: open_path_Some)
      have solved1: "\<And>m. m < next_id h \<Longrightarrow> fully_expanded (nodes h m) \<Longrightarrow> nodes h1 m = nodes h m"
        using same1 unsolved by blast
      have parents1: "\<And>m. m < next_id h \<Longrightarrow> parent (nodes h1 m) = parent (nodes h m)"
        using same1 par1 by metis
      obtain cs where cs: "children (nodes h1 self) = Some cs"
        using run unsolved visited h1 by (cases "children (nodes h1 self)") auto
      have kids: "\<And>c. c \<in> set cs \<Longrightarrow> c < next_id h1 \<and> parent_of h1 c = Some self"
        using search_inv_links[OF inv1 self1 cs] by (simp add: parent_of_def)
      have moves1: "map (\<lambda>c. position (nodes h1 c)) cs = get_possible_moves G (position (nodes h1 self))"
        using search_inv_moves[OF inv1 self1 cs] .
      let ?init = "if is_maximizing (nodes h1 self) then NInf else PInf"
      obtain sr where sr: "scan_children M h1 self 0 cs ?init None = Inr sr"
        using run unsolved visited h1 cs
        by (cases "scan_children M h1 self 0 cs ?init None") auto
      have puct: "\<And>i p. get_puct_heuristic_for_child M h1 self i = Inr p \<Longrightarrow> p \<noteq> NaN"
        using law[unfolded lawful_def, THEN conjunct2, THEN conjunct2, rule_format, OF count1] .
      have close: "search_inv M G h' \<and> next_id h \<le> next_id h' \<and>
           (\<forall>m<next_id h. fully_expanded (nodes h m) \<longrightarrow> nodes h' m = nodes h m) \<and>
           (\<forall>m<next_id h. parent (nodes h' m) = parent (nodes h m)) \<and>
           (\<forall>m. r = Some m \<longrightarrow> open_path h' (Some m))"
        if v: "game_value G (position (nodes h1 self)) v"
          and res: "(case parent (nodes (modify self (set_fully_expanded M v) h1) self) of
                      Some p \<Rightarrow> choose_expansion_node fuel M (modify self (set_fully_expanded M v) h1) p
                    | None \<Rightarrow> Some (Inr (modify self (set_fully_expanded M v) h1, None)))
                   = Some (Inr (h', r))"
        for v
      proof -
        let ?h2 = "modify self (set_fully_expanded M v) h1"
        have inv2: "search_inv M G ?h2" using solve_inv[OF law inv1 self1 v] .
        have nid2: "next_id ?h2 = next_id h1" by (simp add: modify_def)
        have same2: "\<And>a. a < next_id h1 \<Longrightarrow> a \<noteq> self \<Longrightarrow> nodes ?h2 a = nodes h1 a"
          by (simp add: modify_def)
        have par2: "parent (nodes ?h2 self) = parent (nodes h1 self)"
          using law unfolding lawful_def by (simp add: modify_def)
        have solved2: "\<And>m. m < next_id h \<Longrightarrow> fully_expanded (nodes h m) \<Longrightarrow> nodes ?h2 m = nodes h m"
          using solved1 same2 le1 unsolved by (metis less_le_trans)
        have parents2: "\<And>m. parent (nodes ?h2 m) = parent (nodes h1 m)"
          using par2 by (simp add: modify_def)
        show ?thesis
        proof (cases "parent (nodes h1 self)")
          case None
          then have "h' = ?h2" "r = None" using res par2 by simp_all
          then show ?thesis using inv2 nid2 le1 solved2 parents1 parents2 by simp
        next
          case (Some p)
          then have rec: "choose_expansion_node fuel M ?h2 p = Some (Inr (h', r))"
            using res par2 by simp
          have "open_path h1 (Some p)" using above1 Some by (simp add: parent_of_def)
          then have "open_path ?h2 (Some p)"
            using open_path_frame[of h1 self ?h2] above1 same2 nid2 Some
            by (simp add: parent_of_def)
          then have p: "p < next_id ?h2" "open_path ?h2 (parent_of ?h2 p)"
            by (simp_all add: open_path_Some)
          from Suc.IH[OF inv2 p rec]
          have ih: "search_inv M G h'" "next_id ?h2 \<le> next_id h'"
            "\<forall>m<next_id ?h2. fully_expanded (nodes ?h2 m) \<longrightarrow> nodes h' m = nodes ?h2 m"
            "\<forall>m<next_id ?h2. parent (nodes h' m) = parent (nodes ?h2 m)"
            "\<forall>m. r = Some m \<longrightarrow> open_path h' (Some m)"
            by blast+
          have "\<forall>m<next_id h. parent (nodes h' m) = parent (nodes h m)"
            using ih(4) parents1 parents2 le1 nid2 by (metis less_le_trans)
          moreover have "\<forall>m<next_id h. fully_expanded (nodes h m) \<longrightarrow> nodes h' m = nodes h m"
            using ih(3) solved2 le1 nid2 by (metis less_le_trans)
          ultimately show ?thesis using ih(1,2,5) le1 nid2 by simp
        qed
      qed
      show ?thesis
      proof (cases sr)
        case Optimal_child
        obtain c where c: "c \<in> set cs" "fully_expanded (nodes h1 c)"
          "get_evaluation M (nodes h1 c) = Inr (optimal_value (nodes h1 self))"
          using scan_Optimal_child[of M h1 self 0 cs ?init None] sr Optimal_child by auto
        have "game_value G (position (nodes h1 c)) (optimal_value (nodes h1 self))"
          using search_inv_solved[OF inv1 _ c(2)] kids[OF c(1)] c(3) by auto
        moreover obtain k where k: "k < length cs" "cs ! k = c"
          using c(1) by (auto simp: in_set_conv_nth)
        moreover have "position (nodes h1 (cs ! k)) = get_possible_moves G (position (nodes h1 self)) ! k"
          using arg_cong[OF moves1, of "\<lambda>xs. xs ! k"] k(1) by simp
        moreover have "k < length (get_possible_moves G (position (nodes h1 self)))"
          using arg_cong[OF moves1, of length] k(1) by simp
        ultimately have "game_value G (position (nodes h1 self)) (optimal_value (nodes h1 self))"
          using optimal_exact[OF fin outcomes nt1, of k] player1 by (simp add: optimal_value_def)
        moreover have "(case parent (nodes (modify self (set_fully_expanded M (optimal_value (nodes h1 self))) h1) self) of
                      Some p \<Rightarrow> choose_expansion_node fuel M (modify self (set_fully_expanded M (optimal_value (nodes h1 self))) h1) p
                    | None \<Rightarrow> Some (Inr (modify self (set_fully_expanded M (optimal_value (nodes h1 self))) h1, None)))
                   = Some (Inr (h', r))"
          using run unsolved visited h1 cs sr Optimal_child by (simp add: Let_def)
        ultimately show ?thesis by (rule close)
      next
        case (Infinite_puct c)
        then have res: "h' = h1" "r = Some c" using run unsolved visited h1 cs sr by simp_all
        have c: "c \<in> set cs" "\<not> fully_expanded (nodes h1 c)"
          using scan_Infinite_puct[of M h1 self 0 cs ?init None c] sr Infinite_puct by simp_all
        have "open_path h1 (Some c)"
          using kids[OF c(1)] c(2) open1 by (simp add: open_path_Some)
        then show ?thesis using res inv1 le1 solved1 parents1 by simp
      next
        case (Loop_end bc)
        show ?thesis
        proof (cases bc)
          case None
          have all: "\<forall>c\<in>set cs. fully_expanded (nodes h1 c)"
            using scan_Loop_end_None[of M h1 self 0 cs, OF puct] sr Loop_end None by simp
          obtain v where v: "minimax_of_children M h1 (is_maximizing (nodes h1 self)) cs = Inr v"
            using run unsolved visited h1 cs sr Loop_end None
            by (cases "minimax_of_children M h1 (is_maximizing (nodes h1 self)) cs") auto
          have "\<forall>c\<in>set cs. \<exists>w. get_evaluation M (nodes h1 c) = Inr w \<and>
                   game_value G (position (nodes h1 c)) w"
            using all kids search_inv_solved[OF inv1] by blast
          from minimax_exact[OF this moves1 nt1] v player1
          have "game_value G (position (nodes h1 self)) v" by simp
          moreover have "(case parent (nodes (modify self (set_fully_expanded M v) h1) self) of
                      Some p \<Rightarrow> choose_expansion_node fuel M (modify self (set_fully_expanded M v) h1) p
                    | None \<Rightarrow> Some (Inr (modify self (set_fully_expanded M v) h1, None)))
                   = Some (Inr (h', r))"
            using run unsolved visited h1 cs sr Loop_end None v by (simp add: Let_def)
          ultimately show ?thesis by (rule close)
        next
          case (Some b)
          then have rec: "choose_expansion_node fuel M h1 b = Some (Inr (h', r))"
            using run unsolved visited h1 cs sr Loop_end by simp
          have "b \<in> set cs" using scan_Loop_end_Some[of M h1 self 0 cs ?init None b] sr Loop_end Some by simp
          then have b: "b < next_id h1" "parent_of h1 b = Some self" using kids by simp_all
          have "open_path h1 (parent_of h1 b)" using b(2) open1 by simp
          from Suc.IH[OF inv1 b(1) this rec]
          have ih: "search_inv M G h'" "next_id h1 \<le> next_id h'"
            "\<forall>m<next_id h1. fully_expanded (nodes h1 m) \<longrightarrow> nodes h' m = nodes h1 m"
            "\<forall>m<next_id h1. parent (nodes h' m) = parent (nodes h1 m)"
            "\<forall>m. r = Some m \<longrightarrow> open_path h' (Some m)"
            by blast+
          have "\<forall>m<next_id h. parent (nodes h' m) = parent (nodes h m)"
            using ih(4) parents1 le1 by (metis less_le_trans)
          moreover have "\<forall>m<next_id h. fully_expanded (nodes h m) \<longrightarrow> nodes h' m = nodes h m"
            using ih(3) solved1 le1 by (metis less_le_trans)
          ultimately show ?thesis using ih(1,2,5) le1 by simp
        qed
      qed
    qed
  qed
qed

lemma RolloutNode_puct_not_nan:
  assumes "rollout_count (nodes h self) \<noteq> 0" "rollout_count (nodes h self) \<noteq> \<infinity>"
    and "RolloutNode_get_puct_heuristic_for_child cfg h self i = Inr p"
  shows "p \<noteq> NaN"
proof -
  obtain k where k: "rollout_count (nodes h self) = enat k" "k \<noteq> 0"
    using assms(1,2) by (cases "rollout_count (nodes h self)") (auto simp: zero_enat_def)
  then have "ln (real k) \<ge> 0" by simp
  then have ln: "\<And>x::real. x > 0 \<Longrightarrow> \<not> ln (real k) / x < 0"
    by (simp add: divide_less_0_iff not_less)
  note ln1 = ln[of "real m" for m] ln[of "1 + real m" for m]
  obtain cs where cs: "children (nodes h self) = Some cs" "i < length cs"
    using assms(3)
    by (auto simp: RolloutNode_get_puct_heuristic_for_child_def py_index_def split: option.splits if_splits)
  show ?thesis
  proof (cases "rollout_count (nodes h (cs ! i))")
    case (enat m)
    then show ?thesis using assms(3) cs k ln1
      by (auto simp: RolloutNode_get_puct_heuristic_for_child_def py_index_def zero_enat_def
          split: if_splits)
  next
    case infinity
    then show ?thesis using assms(3) cs k
      by (auto simp: RolloutNode_get_puct_heuristic_for_child_def py_index_def split: if_splits)
  qed
qed

lemma HeuristicNode_puct_not_nan:
  assumes "expansions (nodes h self) \<noteq> 0" "expansions (nodes h self) \<noteq> \<infinity>"
    and "HeuristicNode_get_puct_heuristic_for_child cfg h self i = Inr p"
  shows "p \<noteq> NaN"
proof -
  obtain k where k: "expansions (nodes h self) = enat k" "k \<noteq> 0"
    using assms(1,2) by (cases "expansions (nodes h self)") (auto simp: zero_enat_def)
  then have "ln (real k) \<ge> 0" by simp
  then have ln: "\<And>x::real. x > 0 \<Longrightarrow> \<not> ln (real k) / x < 0"
    by (simp add: divide_less_0_iff not_less)
  note ln1 = ln[of "real m" for m] ln[of "1 + real m" for m]
  obtain cs where cs: "children (nodes h self) = Some cs" "i < length cs"
    using assms(3)
    by (auto simp: HeuristicNode_get_puct_heuristic_for_child_def py_index_def split: option.splits if_splits)
  show ?thesis
  proof (cases "expansions (nodes h (cs ! i))")
    case (enat m)
    then show ?thesis using assms(3) cs k ln1
      by (auto simp: HeuristicNode_get_puct_heuristic_for_child_def py_index_def one_enat_def Let_def
          split: if_splits option.splits)
  next
    case infinity
    then show ?thesis using assms(3) cs k
      by (auto simp: HeuristicNode_get_puct_heuristic_for_child_def py_index_def Let_def
          split: if_splits option.splits)
  qed
qed

lemma RolloutNode_lawful: "lawful (RolloutNode_methods cfg) (GameClass cfg)"
proof -
  let ?M = "RolloutNode_methods cfg"
  let ?G = "GameClass cfg"
  have a: "search_inv ?M ?G h1 \<and> next_id h \<le> next_id h1 \<and>
           (\<forall>i<next_id h. i \<noteq> self \<longrightarrow> nodes h1 i = nodes h i) \<and>
           parent (nodes h1 self) = parent (nodes h self) \<and>
           \<not> fully_expanded (nodes h1 self) \<and>
           (count_expansions ?M (nodes h self) \<noteq> 0 \<longrightarrow> count_expansions ?M (nodes h1 self) \<noteq> 0)"
    if inv: "search_inv ?M ?G h" and self: "self < next_id h" and unsolved: "\<not> fully_expanded (nodes h self)"
      and ens: "ensure_children ?M h self = Inr h1"
    for h self h1
  proof (cases "children (nodes h self)")
    case (Some cs)
    then have "h1 = h" using ens by (simp add: RolloutNode_methods_def RolloutNode_ensure_children_def)
    then show ?thesis using inv unsolved by simp
  next
    case None
    let ?new = "\<lambda>move. RolloutNode_init cfg move (Some self)"
    let ?moves = "get_possible_moves (GameClass cfg) (position (nodes h self))"
    have h1: "h1 = allocate self ?new ?moves h"
      using ens None by (simp add: RolloutNode_methods_def RolloutNode_ensure_children_def)
    have born: "\<And>mv. parent (?new mv) = Some self \<and> children (?new mv) = None \<and>
        position (?new mv) = mv \<and> is_maximizing (?new mv) = is_player_1_turn ?G mv \<and>
        (fully_expanded (?new mv) \<longrightarrow> (\<exists>v. get_evaluation ?M (?new mv) = Inr v \<and> game_value ?G mv v)) \<and>
        (\<not> fully_expanded (?new mv) \<longrightarrow> \<not> is_over ?G mv \<and> count_expansions ?M (?new mv) \<noteq> \<infinity>)"
      by (auto simp: RolloutNode_init_def RolloutNode_methods_def RolloutNode_get_evaluation_def
          zero_enat_def intro: game_value.terminal)
    have cnt: "\<And>x. count_expansions ?M ((nodes h self)\<lparr>children := x\<rparr>) = count_expansions ?M (nodes h self)"
      by (simp add: RolloutNode_methods_def)
    have "search_inv ?M ?G h1" unfolding h1 by (rule allocate_inv[OF inv self unsolved refl born cnt])
    then show ?thesis using unsolved by (simp add: h1 allocate_def RolloutNode_methods_def)
  qed
  have b: "\<And>v n. fully_expanded (set_fully_expanded ?M v n) \<and>
         position (set_fully_expanded ?M v n) = position n \<and>
         is_maximizing (set_fully_expanded ?M v n) = is_maximizing n \<and>
         parent (set_fully_expanded ?M v n) = parent n \<and>
         children (set_fully_expanded ?M v n) = children n \<and>
         get_evaluation ?M (set_fully_expanded ?M v n) = Inr v"
    by (simp add: RolloutNode_methods_def RolloutNode_set_fully_expanded_def RolloutNode_get_evaluation_def)
  have c: "\<And>h self i p. count_expansions ?M (nodes h self) \<noteq> 0 \<Longrightarrow>
         count_expansions ?M (nodes h self) \<noteq> \<infinity> \<Longrightarrow>
         get_puct_heuristic_for_child ?M h self i = Inr p \<Longrightarrow> p \<noteq> NaN"
    using RolloutNode_puct_not_nan by (simp add: RolloutNode_methods_def)
  show ?thesis unfolding lawful_def using a b c by blast
qed

lemma HeuristicNode_lawful: "lawful (HeuristicNode_methods cfg) (GameClass cfg)"
proof -
  let ?M = "HeuristicNode_methods cfg"
  let ?G = "GameClass cfg"
  have a: "search_inv ?M ?G h1 \<and> next_id h \<le> next_id h1 \<and>
           (\<forall>i<next_id h. i \<noteq> self \<longrightarrow> nodes h1 i = nodes h i) \<and>
           parent (nodes h1 self) = parent (nodes h self) \<and>
           \<not> fully_expanded (nodes h1 self) \<and>
           (count_expansions ?M (nodes h self) \<noteq> 0 \<longrightarrow> count_expansions ?M (nodes h1 self) \<noteq> 0)"
    if inv: "search_inv ?M ?G h" and self: "self < next_id h" and unsolved: "\<not> fully_expanded (nodes h self)"
      and ens: "ensure_children ?M h self = Inr h1"
    for h self h1
  proof (cases "children (nodes h self)")
    case (Some cs)
    then have "h1 = h" using ens by (simp add: HeuristicNode_methods_def HeuristicNode_ensure_children_def)
    then show ?thesis using inv unsolved by simp
  next
    case None
    let ?new = "\<lambda>move. HeuristicNode_init cfg move (Some self) (Some (network_call cfg move))"
    let ?moves = "get_possible_moves (GameClass cfg) (position (nodes h self))"
    let ?ha = "allocate self ?new ?moves h"
    have h1: "h1 = modify self (\<lambda>n. n\<lparr>expansions := 1\<rparr>) ?ha"
      using ens None
      by (simp add: HeuristicNode_methods_def HeuristicNode_ensure_children_def Let_def split: if_splits)
    have born: "\<And>mv. parent (?new mv) = Some self \<and> children (?new mv) = None \<and>
        position (?new mv) = mv \<and> is_maximizing (?new mv) = is_player_1_turn ?G mv \<and>
        (fully_expanded (?new mv) \<longrightarrow> (\<exists>v. get_evaluation ?M (?new mv) = Inr v \<and> game_value ?G mv v)) \<and>
        (\<not> fully_expanded (?new mv) \<longrightarrow> \<not> is_over ?G mv \<and> count_expansions ?M (?new mv) \<noteq> \<infinity>)"
      by (auto simp: HeuristicNode_init_def HeuristicNode_methods_def HeuristicNode_get_evaluation_def
          zero_enat_def intro: game_value.terminal split: prod.splits)
    have cnt: "\<And>x. count_expansions ?M ((nodes h self)\<lparr>children := x\<rparr>) = count_expansions ?M (nodes h self)"
      by (simp add: HeuristicNode_methods_def)
    have inva: "search_inv ?M ?G ?ha" by (rule allocate_inv[OF inv self unsolved refl born cnt])
    have unsolved_a: "\<not> fully_expanded (nodes ?ha self)" using unsolved by (simp add: allocate_def)
    have "search_inv ?M ?G h1" unfolding h1
      by (rule modify_unsolved_inv[OF inva unsolved_a])
         (use unsolved_a in \<open>simp_all add: HeuristicNode_methods_def one_enat_def\<close>)
    then show ?thesis using unsolved
      by (simp add: h1 allocate_def modify_def HeuristicNode_methods_def)
  qed
  have b: "\<And>v n. fully_expanded (set_fully_expanded ?M v n) \<and>
         position (set_fully_expanded ?M v n) = position n \<and>
         is_maximizing (set_fully_expanded ?M v n) = is_maximizing n \<and>
         parent (set_fully_expanded ?M v n) = parent n \<and>
         children (set_fully_expanded ?M v n) = children n \<and>
         get_evaluation ?M (set_fully_expanded ?M v n) = Inr v"
    by (simp add: HeuristicNode_methods_def HeuristicNode_set_fully_expanded_def HeuristicNode_get_evaluation_def)
  have c: "\<And>h self i p. count_expansions ?M (nodes h self) \<noteq> 0 \<Longrightarrow>
         count_expansions ?M (nodes h self) \<noteq> \<infinity> \<Longrightarrow>
         get_puct_heuristic_for_child ?M h self i = Inr p \<Longrightarrow> p \<noteq> NaN"
    using HeuristicNode_puct_not_nan by (simp add: HeuristicNode_methods_def)
  show ?thesis unfolding lawful_def using a b c by blast
qed

lemma keeps_solved_refl: "keeps_solved h h"
  by (simp add: keeps_solved_def)

lemma keeps_solved_trans: "keeps_solved h h1 \<Longrightarrow> keeps_solved h1 h2 \<Longrightarrow> keeps_solved h h2"
  unfolding keeps_solved_def by (metis less_le_trans le_trans)

lemma keeps_solved_modify:
  assumes "\<not> fully_expanded (nodes h i)" "parent (f (nodes h i)) = parent (nodes h i)"
  shows "keeps_solved h (modify i f h)"
  using assms unfolding keeps_solved_def by (auto simp: modify_def)

lemma open_path_modify:
  assumes "open_path h (parent_of h n)"
  shows "open_path (modify n f h) (parent_of h n)"
  by (rule open_path_frame[OF assms]) (simp_all add: modify_def)

lemma RolloutNode_backup_inv:
  "search_inv (RolloutNode_methods cfg) (GameClass cfg) h \<Longrightarrow> open_path h node \<Longrightarrow>
   RolloutNode_backup fuel rs b h node = Some h' \<Longrightarrow>
   search_inv (RolloutNode_methods cfg) (GameClass cfg) h' \<and> keeps_solved h h'"
proof (induction fuel arbitrary: h node)
  case 0
  then show ?case by (cases node) (simp_all add: keeps_solved_refl)
next
  case (Suc fuel)
  show ?case
  proof (cases node)
    case None
    then show ?thesis using Suc.prems by (simp add: keeps_solved_refl)
  next
    case (Some n)
    let ?f = "\<lambda>x. x\<lparr>rollout_sum := rollout_sum x + rs, rollout_count := rollout_count x + enat b\<rparr>"
    let ?h1 = "modify n ?f h"
    have n: "n < next_id h" "\<not> fully_expanded (nodes h n)" "open_path h (parent_of h n)"
      using Suc.prems(2) Some by (simp_all add: open_path_Some)
    have fin: "rollout_count (nodes h n) \<noteq> \<infinity>"
      using Suc.prems(1) n unfolding search_inv_def by (auto simp: RolloutNode_methods_def)
    have inv1: "search_inv (RolloutNode_methods cfg) (GameClass cfg) ?h1"
      by (rule modify_unsolved_inv[OF Suc.prems(1) n(2)])
         (use n(2) fin in \<open>auto simp: RolloutNode_methods_def\<close>)
    have open1: "open_path ?h1 (parent_of h n)" using open_path_modify[OF n(3)] .
    have run: "RolloutNode_backup fuel rs b ?h1 (parent_of h n) = Some h'"
      using Suc.prems(3) Some by (simp add: parent_of_def)
    from Suc.IH[OF inv1 open1 run]
    have "search_inv (RolloutNode_methods cfg) (GameClass cfg) h'" "keeps_solved ?h1 h'" by simp_all
    moreover have "keeps_solved h ?h1" by (rule keeps_solved_modify) (use n(2) in simp_all)
    ultimately show ?thesis using keeps_solved_trans by blast
  qed
qed

lemma backup_expansions_inv:
  "search_inv (HeuristicNode_methods cfg) (GameClass cfg) h \<Longrightarrow> open_path h node \<Longrightarrow>
   backup_expansions fuel h node = Some h' \<Longrightarrow>
   search_inv (HeuristicNode_methods cfg) (GameClass cfg) h' \<and> keeps_solved h h'"
proof (induction fuel arbitrary: h node)
  case 0
  then show ?case by (cases node) (simp_all add: keeps_solved_refl)
next
  case (Suc fuel)
  show ?case
  proof (cases node)
    case None
    then show ?thesis using Suc.prems by (simp add: keeps_solved_refl)
  next
    case (Some n)
    let ?f = "\<lambda>x. x\<lparr>expansions := expansions x + 1\<rparr>"
    let ?h1 = "modify n ?f h"
    have n: "n < next_id h" "\<not> fully_expanded (nodes h n)" "open_path h (parent_of h n)"
      using Suc.prems(2) Some by (simp_all add: open_path_Some)
    have fin: "expansions (nodes h n) \<noteq> \<infinity>"
      using Suc.prems(1) n unfolding search_inv_def by (auto simp: HeuristicNode_methods_def)
    have inv1: "search_inv (HeuristicNode_methods cfg) (GameClass cfg) ?h1"
      by (rule modify_unsolved_inv[OF Suc.prems(1) n(2)])
         (use n(2) fin in \<open>auto simp: HeuristicNode_methods_def one_enat_def\<close>)
    have open1: "open_path ?h1 (parent_of h n)" using open_path_modify[OF n(3)] .
    have run: "backup_expansions fuel ?h1 (parent_of h n) = Some h'"
      using Suc.prems(3) Some by (simp add: parent_of_def)
    from Suc.IH[OF inv1 open1 run]
    have "search_inv (HeuristicNode_methods cfg) (GameClass cfg) h'" "keeps_solved ?h1 h'" by simp_all
    moreover have "keeps_solved h ?h1" by (rule keeps_solved_modify) (use n(2) in simp_all)
    ultimately show ?thesis using keeps_solved_trans by blast
  qed
qed

lemma backup_heuristic_inv:
  "search_inv (HeuristicNode_methods cfg) (GameClass cfg) h \<Longrightarrow> open_path h node \<Longrightarrow>
   backup_heuristic fuel cv h node = Some (h', node') \<Longrightarrow>
   search_inv (HeuristicNode_methods cfg) (GameClass cfg) h' \<and> keeps_solved h h' \<and> open_path h' node'"
proof (induction fuel arbitrary: h node)
  case 0
  then show ?case by (cases node) (simp_all add: keeps_solved_refl)
next
  case (Suc fuel)
  show ?case
  proof (cases node)
    case None
    then show ?thesis using Suc.prems by (simp add: keeps_solved_refl)
  next
    case (Some n)
    have n: "n < next_id h" "\<not> fully_expanded (nodes h n)" "open_path h (parent_of h n)"
      using Suc.prems(2) Some by (simp_all add: open_path_Some)
    have fin: "expansions (nodes h n) \<noteq> \<infinity>"
      using Suc.prems(1) n unfolding search_inv_def by (auto simp: HeuristicNode_methods_def)
    show ?thesis
    proof (cases "beats cv (nodes h n)")
      case True
      let ?f = "\<lambda>x. x\<lparr>heuristic := cv, expansions := expansions x + 1\<rparr>"
      let ?h1 = "modify n ?f h"
      have inv1: "search_inv (HeuristicNode_methods cfg) (GameClass cfg) ?h1"
        by (rule modify_unsolved_inv[OF Suc.prems(1) n(2)])
           (use n(2) fin in \<open>auto simp: HeuristicNode_methods_def one_enat_def\<close>)
      have open1: "open_path ?h1 (parent_of h n)" using open_path_modify[OF n(3)] .
      have run: "backup_heuristic fuel cv ?h1 (parent_of h n) = Some (h', node')"
        using Suc.prems(3) Some True by (simp add: parent_of_def)
      from Suc.IH[OF inv1 open1 run]
      have "search_inv (HeuristicNode_methods cfg) (GameClass cfg) h'" "keeps_solved ?h1 h'" "open_path h' node'"
        by simp_all
      moreover have "keeps_solved h ?h1" by (rule keeps_solved_modify) (use n(2) in simp_all)
      ultimately show ?thesis using keeps_solved_trans by blast
    next
      case False
      let ?f = "\<lambda>x. x\<lparr>expansions := expansions x + 1\<rparr>"
      let ?h1 = "modify n ?f h"
      have res: "h' = ?h1" "node' = parent_of h n"
        using Suc.prems(3) Some False by (simp_all add: parent_of_def)
      have inv1: "search_inv (HeuristicNode_methods cfg) (GameClass cfg) ?h1"
        by (rule modify_unsolved_inv[OF Suc.prems(1) n(2)])
           (use n(2) fin in \<open>auto simp: HeuristicNode_methods_def one_enat_def\<close>)
      have open1: "open_path ?h1 (parent_of h n)" using open_path_modify[OF n(3)] .
      have "keeps_solved h ?h1" by (rule keeps_solved_modify) (use n(2) in simp_all)
      then show ?thesis using res inv1 open1 by simp
    qed
  qed
qed

lemma RolloutNode_expand_inv:
  assumes "search_inv (RolloutNode_methods cfg) (GameClass cfg) h" "open_path h (Some m)"
    "RolloutNode_expand fuel cfg outcome h m = Some (Inr h')"
  shows "search_inv (RolloutNode_methods cfg) (GameClass cfg) h' \<and> keeps_solved h h'"
proof -
  obtain hb where "RolloutNode_backup fuel (sum_list (map outcome [0 ..< rollout_batch_size cfg]))
      (rollout_batch_size cfg) h (Some m) = Some hb" "h' = hb"
    using assms(3) by (auto simp: RolloutNode_expand_def)
  then show ?thesis using RolloutNode_backup_inv[OF assms(1,2)] by blast
qed

lemma HeuristicNode_expand_inv:
  assumes inv: "search_inv (HeuristicNode_methods cfg) (GameClass cfg) h" and path: "open_path h (Some m)"
    and run: "HeuristicNode_expand fuel cfg h m = Some (Inr h')"
  shows "search_inv (HeuristicNode_methods cfg) (GameClass cfg) h' \<and> keeps_solved h h'"
proof -
  let ?M = "HeuristicNode_methods cfg"
  let ?G = "GameClass cfg"
  have m: "m < next_id h" "\<not> fully_expanded (nodes h m)" "open_path h (parent_of h m)"
    using path by (simp_all add: open_path_Some)
  have leaf: "children (nodes h m) = None"
    using run by (auto simp: HeuristicNode_expand_def split: if_splits)
  obtain h1 where ens: "HeuristicNode_ensure_children cfg h m = Inr h1"
    using run leaf m(2) by (cases "HeuristicNode_ensure_children cfg h m") (auto simp: HeuristicNode_expand_def)
  then have ens': "ensure_children ?M h m = Inr h1" by (simp add: HeuristicNode_methods_def)
  from HeuristicNode_lawful[of cfg, unfolded lawful_def, THEN conjunct1, rule_format, OF inv m(1,2) ens']
  have inv1: "search_inv ?M ?G h1" and le1: "next_id h \<le> next_id h1"
    and same1: "\<And>i. i < next_id h \<Longrightarrow> i \<noteq> m \<Longrightarrow> nodes h1 i = nodes h i"
    and par1: "parent (nodes h1 m) = parent (nodes h m)"
    and unsolved1: "\<not> fully_expanded (nodes h1 m)"
    by blast+
  have m1: "m < next_id h1" using m(1) le1 by simp
  have ks1: "keeps_solved h h1"
    unfolding keeps_solved_def using le1 same1 par1 m(2) by metis
  have pof1: "parent_of h1 m = parent_of h m" using par1 by (simp add: parent_of_def)
  have open1: "open_path h1 (parent_of h1 m)"
    using open_path_frame[OF m(3) same1 le1] pof1 by simp
  obtain cs where cs: "children (nodes h1 m) = Some cs"
    using run leaf m(2) ens by (cases "children (nodes h1 m)") (auto simp: HeuristicNode_expand_def)
  obtain cv where cv: "critical_value_of h1 (is_maximizing (nodes h1 m)) cs = Inr cv"
    using run leaf m(2) ens cs
    by (cases "critical_value_of h1 (is_maximizing (nodes h1 m)) cs") (auto simp: HeuristicNode_expand_def)
  let ?h2 = "modify m (\<lambda>n. n\<lparr>heuristic := cv\<rparr>) h1"
  have fin1: "expansions (nodes h1 m) \<noteq> \<infinity>"
    using search_inv_unsolved[OF inv1 m1 unsolved1] by (simp add: HeuristicNode_methods_def)
  have inv2: "search_inv ?M ?G ?h2"
    by (rule modify_unsolved_inv[OF inv1 unsolved1])
       (use unsolved1 fin1 in \<open>simp_all add: HeuristicNode_methods_def\<close>)
  have ks2: "keeps_solved h1 ?h2" by (rule keeps_solved_modify) (use unsolved1 in simp_all)
  have pof2: "parent_of ?h2 m = parent_of h1 m" by (simp add: parent_of_def modify_def)
  have open2: "open_path ?h2 (parent_of ?h2 m)"
    using open_path_modify[OF open1] pof2 by simp
  obtain h3 node' where h3: "backup_heuristic fuel cv ?h2 (parent_of ?h2 m) = Some (h3, node')"
    and h4: "backup_expansions fuel h3 node' = Some h'"
    using run leaf m(2) ens cs cv
    by (auto simp: HeuristicNode_expand_def Let_def parent_of_def split: option.splits)
  from backup_heuristic_inv[OF inv2 open2 h3]
  have inv3: "search_inv ?M ?G h3" and ks3: "keeps_solved ?h2 h3" and open3: "open_path h3 node'"
    by simp_all
  from backup_expansions_inv[OF inv3 open3 h4]
  have "search_inv ?M ?G h'" "keeps_solved h3 h'" by simp_all
  then show ?thesis using ks1 ks2 ks3 keeps_solved_trans by blast
qed

lemma open_path_None: "open_path h None"
  by (simp add: open_path_def)

lemma selection_keeps_solved:
  assumes "lawful M G" "finite_game G" "terminal_outcomes G"
    "search_inv M G h" "rt < next_id h" "parent (nodes h rt) = None"
    "choose_expansion_node fuel M h rt = Some (Inr (h', r))"
  shows "search_inv M G h' \<and> keeps_solved h h' \<and> (\<forall>m. r = Some m \<longrightarrow> open_path h' (Some m))"
proof -
  have "open_path h (parent_of h rt)" using assms(6) by (simp add: parent_of_def open_path_None)
  from selection_invariant[OF assms(1,2,3,4,5) this assms(7)]
  show ?thesis unfolding keeps_solved_def by blast
qed

lemma search_loop_inv:
  assumes law: "lawful M G" and fin: "finite_game G" and outcomes: "terminal_outcomes G"
    and ex: "\<And>k h m h'. search_inv M G h \<Longrightarrow> open_path h (Some m) \<Longrightarrow> expand k h m = Some (Inr h') \<Longrightarrow>
               search_inv M G h' \<and> keeps_solved h h'"
  shows "search_inv M G h \<Longrightarrow> rt < next_id h \<Longrightarrow> parent (nodes h rt) = None \<Longrightarrow>
     search_loop k fuel M expand h rt = Some (Inr h') \<Longrightarrow> search_inv M G h' \<and> keeps_solved h h'"
proof (induction k arbitrary: h)
  case 0
  then show ?case by (simp add: keeps_solved_refl)
next
  case (Suc k)
  obtain h1 r where sel: "choose_expansion_node fuel M h rt = Some (Inr (h1, r))"
    using Suc.prems(4) by (auto split: option.splits sum.splits)
  from selection_keeps_solved[OF law fin outcomes Suc.prems(1,2,3) sel]
  have inv1: "search_inv M G h1" and ks1: "keeps_solved h h1"
    and open1: "\<And>m. r = Some m \<Longrightarrow> open_path h1 (Some m)" by blast+
  show ?case
  proof (cases r)
    case None
    then have "h' = h1" using Suc.prems(4) sel by simp
    then show ?thesis using inv1 ks1 by simp
  next
    case (Some m)
    obtain h2 where e: "expand k h1 m = Some (Inr h2)"
      and rest: "search_loop k fuel M expand h2 rt = Some (Inr h')"
      using Suc.prems(4) sel Some by (auto split: option.splits sum.splits)
    from ex[OF inv1 open1[OF Some] e] have inv2: "search_inv M G h2" and ks2: "keeps_solved h1 h2"
      by simp_all
    have ks: "keeps_solved h h2" using ks1 ks2 by (rule keeps_solved_trans)
    then have root2: "rt < next_id h2" "parent (nodes h2 rt) = None"
      using Suc.prems(2,3) unfolding keeps_solved_def by auto
    from Suc.IH[OF inv2 root2 rest] have "search_inv M G h'" "keeps_solved h2 h'" by simp_all
    then show ?thesis using ks keeps_solved_trans by blast
  qed
qed

lemma keeps_solved_stays:
  assumes "terminal_outcomes G" "search_inv M G h" "keeps_solved h h'" "n < next_id h"
    "fully_expanded (nodes h n)"
  shows "stays_solved M G h h' n"
proof -
  have same: "nodes h' n = nodes h n" using assms(3,4,5) unfolding keeps_solved_def by blast
  obtain v where v: "get_evaluation M (nodes h n) = Inr v" "game_value G (position (nodes h n)) v"
    using search_inv_solved[OF assms(2,4,5)] by blast
  have "v \<in> {- 1, 0, 1}" using game_value_range[OF assms(1) v(2)] .
  then show ?thesis using same v assms(5) unfolding stays_solved_def by auto
qed

text \<open>
  C3, as amended. Let the game be finite (every position has an exact minimax value) with
  terminal outcomes -1, 0 or 1, let the heap satisfy \<open>search_inv\<close>, and let \<open>n\<close> be a
  fully expanded node. Neither a call of \<^verbatim>\<open>choose_expansion_node\<close> on the
  root, nor any number of iterations of the search loop (each a call of
  \<^verbatim>\<open>choose_expansion_node\<close> on the root followed by \<^verbatim>\<open>expand()\<close>
  on the node it returned) changes \<open>n\<close>: it stays fully expanded, its evaluation is
  the same, it is one of -1, 0, 1, and it equals the exact minimax value of the position
  of \<open>n\<close>; and \<open>search_inv\<close> holds again afterwards, so the same is true of every
  later call and of every node solved in between. This holds for rollout nodes and for
  heuristic nodes.
\<close>

theorem C3_solved_stays_solved:
  "(finite_game (GameClass cr) \<and> terminal_outcomes (GameClass cr) \<and>
    search_inv (RolloutNode_methods cr) (GameClass cr) hr \<and>
    rt < next_id hr \<and> parent (nodes hr rt) = None \<and>
    n < next_id hr \<and> fully_expanded (nodes hr n) \<and>
    (choose_expansion_node fuel (RolloutNode_methods cr) hr rt = Some (Inr (hr', r)) \<or>
     search_loop k fuel (RolloutNode_methods cr) (\<lambda>i. RolloutNode_expand fuel cr (outcome i)) hr rt
       = Some (Inr hr')) \<longrightarrow>
      stays_solved (RolloutNode_methods cr) (GameClass cr) hr hr' n \<and>
      search_inv (RolloutNode_methods cr) (GameClass cr) hr') \<and>
   (finite_game (GameClass ch) \<and> terminal_outcomes (GameClass ch) \<and>
    search_inv (HeuristicNode_methods ch) (GameClass ch) hh \<and>
    rt' < next_id hh \<and> parent (nodes hh rt') = None \<and>
    n' < next_id hh \<and> fully_expanded (nodes hh n') \<and>
    (choose_expansion_node fuel' (HeuristicNode_methods ch) hh rt' = Some (Inr (hh', r')) \<or>
     search_loop k' fuel' (HeuristicNode_methods ch) (\<lambda>i. HeuristicNode_expand fuel' ch) hh rt'
       = Some (Inr hh')) \<longrightarrow>
      stays_solved (HeuristicNode_methods ch) (GameClass ch) hh hh' n' \<and>
      search_inv (HeuristicNode_methods ch) (GameClass ch) hh')"
proof (intro conjI impI)
  assume a: "finite_game (GameClass cr) \<and> terminal_outcomes (GameClass cr) \<and>
    search_inv (RolloutNode_methods cr) (GameClass cr) hr \<and>
    rt < next_id hr \<and> parent (nodes hr rt) = None \<and>
    n < next_id hr \<and> fully_expanded (nodes hr n) \<and>
    (choose_expansion_node fuel (RolloutNode_methods cr) hr rt = Some (Inr (hr', r)) \<or>
     search_loop k fuel (RolloutNode_methods cr) (\<lambda>i. RolloutNode_expand fuel cr (outcome i)) hr rt
       = Some (Inr hr'))"
  note law = RolloutNode_lawful[of cr]
  have f: "finite_game (GameClass cr)" and t: "terminal_outcomes (GameClass cr)" using a by simp_all
  have "search_inv (RolloutNode_methods cr) (GameClass cr) hr' \<and> keeps_solved hr hr'"
    using a selection_keeps_solved[OF law f t, of hr rt fuel hr' r]
      search_loop_inv[OF law f t, of "\<lambda>i. RolloutNode_expand fuel cr (outcome i)" hr rt k fuel hr']
      RolloutNode_expand_inv[of cr]
    by blast
  then show "stays_solved (RolloutNode_methods cr) (GameClass cr) hr hr' n"
    "search_inv (RolloutNode_methods cr) (GameClass cr) hr'"
    using a keeps_solved_stays[OF t] by blast+
next
  assume a: "finite_game (GameClass ch) \<and> terminal_outcomes (GameClass ch) \<and>
    search_inv (HeuristicNode_methods ch) (GameClass ch) hh \<and>
    rt' < next_id hh \<and> parent (nodes hh rt') = None \<and>
    n' < next_id hh \<and> fully_expanded (nodes hh n') \<and>
    (choose_expansion_node fuel' (HeuristicNode_methods ch) hh rt' = Some (Inr (hh', r')) \<or>
     search_loop k' fuel' (HeuristicNode_methods ch) (\<lambda>i. HeuristicNode_expand fuel' ch) hh rt'
       = Some (Inr hh'))"
  note law = HeuristicNode_lawful[of ch]
  have f: "finite_game (GameClass ch)" and t: "terminal_outcomes (GameClass ch)" using a by simp_all
  have "search_inv (HeuristicNode_methods ch) (GameClass ch) hh' \<and> keeps_solved hh hh'"
    using a selection_keeps_solved[OF law f t, of hh rt' fuel' hh' r']
      search_loop_inv[OF law f t, of "\<lambda>i. HeuristicNode_expand fuel' ch" hh rt' k' fuel' hh']
      HeuristicNode_expand_inv[of ch]
    by blast
  then show "stays_solved (HeuristicNode_methods ch) (GameClass ch) hh hh' n'"
    "search_inv (HeuristicNode_methods ch) (GameClass ch) hh'"
    using a keeps_solved_stays[OF t] by blast+
qed

lemma tiny_outcomes: "terminal_outcomes (GameClass tiny_cfg)"
  by (simp add: terminal_outcomes_def tiny_cfg_def tiny_game_def)

lemma tiny_terminal:
  "p \<noteq> 0 \<Longrightarrow> p \<noteq> 2 \<Longrightarrow> p \<noteq> 5 \<Longrightarrow> p \<noteq> 6 \<Longrightarrow>
   game_value tiny_game p (if p = 1 then 1 else if p = 3 then - 1 else 0)"
  using game_value.terminal[of tiny_game p] by (simp add: tiny_game_def)

lemma tiny_inner:
  assumes "p = 0 \<or> p = 2 \<or> p = 5 \<or> p = 6"
    and "get_possible_moves tiny_game p = [a, b]"
    and "game_value tiny_game a x" "game_value tiny_game b y"
  shows "game_value tiny_game p (if is_player_1_turn tiny_game p then max x y else min x y)"
proof -
  have nt: "\<not> is_over tiny_game p" using assms(1) by (auto simp: tiny_game_def)
  have each: "\<And>i. i < length [x, y] \<Longrightarrow> game_value tiny_game (get_possible_moves tiny_game p ! i) ([x, y] ! i)"
    using assms(2,3,4) by (simp add: nth_Cons split: nat.splits)
  from game_value.inner[OF nt _ _ each] assms(2) show ?thesis
    by (cases "is_player_1_turn tiny_game p") simp_all
qed

lemma tiny_values:
  "game_value tiny_game 2 (- 1)" "game_value tiny_game 5 0" "game_value tiny_game 6 0"
  "game_value tiny_game 0 1"
proof -
  have t: "game_value tiny_game 1 1" "game_value tiny_game 3 (- 1)" "game_value tiny_game 4 0"
    using tiny_terminal[of 1] tiny_terminal[of 3] tiny_terminal[of 4] by simp_all
  show 2: "game_value tiny_game 2 (- 1)"
    using tiny_inner[of 2 3 4, OF _ _ t(2,3)] by (simp add: tiny_game_def)
  show "game_value tiny_game 5 0"
    using tiny_inner[of 5 3 4, OF _ _ t(2,3)] by (simp add: tiny_game_def)
  show "game_value tiny_game 6 0"
    using tiny_inner[of 6 4 2, OF _ _ t(3) 2] by (simp add: tiny_game_def)
  show "game_value tiny_game 0 1"
    using tiny_inner[of 0 1 2, OF _ _ t(1) 2] by (simp add: tiny_game_def)
qed

lemma tiny_finite: "finite_game (GameClass tiny_cfg)"
proof -
  have "\<exists>v. game_value tiny_game p v" for p
  proof (cases "p = 0 \<or> p = 2 \<or> p = 5 \<or> p = 6")
    case True
    then show ?thesis using tiny_values by blast
  next
    case False
    then show ?thesis using tiny_terminal[of p] by blast
  qed
  then show ?thesis by (simp add: finite_game_def tiny_cfg_def)
qed

lemma less_3: "(n::nat) < 3 \<longleftrightarrow> n = 0 \<or> n = 1 \<or> n = 2"
  by auto

lemma unvisited_inv: "search_inv (RolloutNode_methods tiny_cfg) (GameClass tiny_cfg) unvisited_heap"
proof -
  have "game_value (GameClass tiny_cfg) 4 0"
    using tiny_terminal[of 4] by (simp add: tiny_cfg_def)
  then show ?thesis
    unfolding search_inv_def
    by (auto simp: unvisited_heap_def ex_defs less_3)
qed

lemma closure_inv: "search_inv (HeuristicNode_methods tiny_cfg) (GameClass tiny_cfg) closure_heap_heuristic"
proof -
  have "game_value (GameClass tiny_cfg) 3 (- 1)" "game_value (GameClass tiny_cfg) 4 0"
    using tiny_terminal[of 3] tiny_terminal[of 4] by (simp_all add: tiny_cfg_def)
  then show ?thesis
    unfolding search_inv_def
    by (auto simp: closure_heap_heuristic_def ex_defs less_3)
qed

lemma rollout_run:
  "map_option (map_sum id (\<lambda>h. (map (\<lambda>i. (fully_expanded (nodes h i), RolloutNode_get_evaluation (nodes h i))) [0, 1, 2])))
     (search_loop 2 3 (RolloutNode_methods tiny_cfg) (\<lambda>i. RolloutNode_expand 3 tiny_cfg (\<lambda>j. 0)) unvisited_heap 0)
   = Some (Inr [(True, Inr 0), (True, Inr 0), (True, Inr (- 1))])"
  by (simp add: numeral_2_eq_2 numeral_3_eq_3 unvisited_heap_def ex_defs RolloutNode_expand_def modify_def
      RolloutNode_ensure_children_def allocate_def RolloutNode_get_puct_heuristic_for_child_def py_index_def
      RolloutNode_set_fully_expanded_def minimax_of_children_def Let_def)

lemma heuristic_run:
  "map_option (map_sum id (\<lambda>h. (map (\<lambda>i. (fully_expanded (nodes h i), HeuristicNode_get_evaluation (nodes h i))) [0, 1, 2])))
     (search_loop 1 1 (HeuristicNode_methods tiny_cfg) (\<lambda>i. HeuristicNode_expand 1 tiny_cfg) closure_heap_heuristic 0)
   = Some (Inr [(True, Inr 0), (True, Inr (- 1)), (True, Inr 0)])"
  by (simp add: closure_heap_heuristic_def ex_defs modify_def
      HeuristicNode_ensure_children_def HeuristicNode_set_fully_expanded_def minimax_of_children_def Let_def)

lemma projected_result:
  "map_option (map_sum id f) x = Some (Inr y) \<Longrightarrow> \<exists>h. x = Some (Inr h) \<and> f h = y"
  by (cases x; cases "the x") auto

text \<open>
  The claim as stated fails: it speaks of any \<^verbatim>\<open>expand()\<close> on any node of the
  search. In \<open>solved_root_heap\<close> (a state the search reaches, see
  \<open>solved_root_heap_reached\<close>) the root is fully expanded with the value 1, and the
  node at address 2 is neither fully expanded nor terminal.
  \<^verbatim>\<open>RolloutNode.expand\<close> on that node, with a playout lost by player 1, adds the
  outcome to the sum of every ancestor: the evaluation of the root becomes 0.
\<close>

theorem C3_counterexample:
  "fully_expanded (nodes solved_root_heap 0) \<and>
   RolloutNode_get_evaluation (nodes solved_root_heap 0) = Inr 1 \<and>
   \<not> fully_expanded (nodes solved_root_heap 2) \<and>
   \<not> is_over (GameClass tiny_cfg) (position (nodes solved_root_heap 2)) \<and>
   map_option (map_sum id (\<lambda>h. (fully_expanded (nodes h 0), RolloutNode_get_evaluation (nodes h 0))))
     (RolloutNode_expand (Suc (Suc (Suc 0))) tiny_cfg (\<lambda>i. - 1) solved_root_heap 2) =
       Some (Inr (True, Inr 0))"
  by (simp add: RolloutNode_expand_def solved_root_heap_def modify_def ex_defs)

theorem C3_solved_stays_solved_witness:
  "(\<exists>h'. search_loop 2 3 (RolloutNode_methods tiny_cfg) (\<lambda>i. RolloutNode_expand 3 tiny_cfg (\<lambda>j. 0))
            unvisited_heap 0 = Some (Inr h') \<and>
         stays_solved (RolloutNode_methods tiny_cfg) (GameClass tiny_cfg) unvisited_heap h' 1 \<and>
         get_evaluation (RolloutNode_methods tiny_cfg) (nodes h' 1) = Inr 0 \<and>
         search_inv (RolloutNode_methods tiny_cfg) (GameClass tiny_cfg) h') \<and>
   (\<exists>h'. search_loop 1 1 (HeuristicNode_methods tiny_cfg) (\<lambda>i. HeuristicNode_expand 1 tiny_cfg)
            closure_heap_heuristic 0 = Some (Inr h') \<and>
         stays_solved (HeuristicNode_methods tiny_cfg) (GameClass tiny_cfg) closure_heap_heuristic h' 1 \<and>
         get_evaluation (HeuristicNode_methods tiny_cfg) (nodes h' 1) = Inr (- 1) \<and>
         search_inv (HeuristicNode_methods tiny_cfg) (GameClass tiny_cfg) h')"
proof -
  obtain hr where hr: "search_loop 2 3 (RolloutNode_methods tiny_cfg)
      (\<lambda>i. RolloutNode_expand 3 tiny_cfg (\<lambda>j. 0)) unvisited_heap 0 = Some (Inr hr)"
    and er: "RolloutNode_get_evaluation (nodes hr 1) = Inr 0"
    using projected_result[OF rollout_run] by auto
  obtain hh where hh: "search_loop 1 1 (HeuristicNode_methods tiny_cfg)
      (\<lambda>i. HeuristicNode_expand 1 tiny_cfg) closure_heap_heuristic 0 = Some (Inr hh)"
    and eh: "HeuristicNode_get_evaluation (nodes hh 1) = Inr (- 1)"
    using projected_result[OF heuristic_run] by auto
  have pr: "(0::nat) < next_id unvisited_heap" "parent (nodes unvisited_heap 0) = None"
    "1 < next_id unvisited_heap" "fully_expanded (nodes unvisited_heap 1)"
    by (simp_all add: unvisited_heap_def ex_defs)
  have ph: "(0::nat) < next_id closure_heap_heuristic" "parent (nodes closure_heap_heuristic 0) = None"
    "1 < next_id closure_heap_heuristic" "fully_expanded (nodes closure_heap_heuristic 1)"
    by (simp_all add: closure_heap_heuristic_def ex_defs)
  from C3_solved_stays_solved[where cr = tiny_cfg and hr = unvisited_heap and rt = 0 and n = 1
      and fuel = 3 and k = 2 and outcome = "\<lambda>i j. 0" and hr' = hr
      and ch = tiny_cfg and hh = closure_heap_heuristic and rt' = 0 and n' = 1
      and fuel' = 1 and k' = 1 and hh' = hh]
    tiny_finite tiny_outcomes unvisited_inv closure_inv hr hh pr ph
  have "stays_solved (RolloutNode_methods tiny_cfg) (GameClass tiny_cfg) unvisited_heap hr 1"
    "search_inv (RolloutNode_methods tiny_cfg) (GameClass tiny_cfg) hr"
    "stays_solved (HeuristicNode_methods tiny_cfg) (GameClass tiny_cfg) closure_heap_heuristic hh 1"
    "search_inv (HeuristicNode_methods tiny_cfg) (GameClass tiny_cfg) hh"
    by simp_all
  then show ?thesis using hr hh er eh
    by (auto simp: RolloutNode_methods_def HeuristicNode_methods_def)
qed


end
